theory Spec2Isabelle
  imports Complex_Main "HOL-Library.Char_ord" "HOL-Library.List_Lexorder"
begin

section \<open>Python values and errors\<close>

text \<open>
  The notebook \<^verbatim>\<open>ipynb/Package Data.ipynb\<close> is a sequence of Python cells. Every
  exception a cell can raise is a value of \<open>error\<close>; a computation that may raise
  returns \<open>error + 'a\<close> with \<open>Inl\<close> for the exception.

  \<open>Unsupported\<close> is not a Python exception: it marks an input that Python would
  process but that lies outside the fragment modelled here (JSON numbers and objects,
  the coercions of numpy, the splitting of flat taxonomy strings in biom).
\<close>

datatype error =
    NameError string
  | TypeError
  | IndexError
  | KeyError string
  | ValueError
  | JSONDecodeError
  | UnicodeEncodeError
  | FileNotFoundError
  | OSError
  | Unsupported

text \<open>
  A Python \<open>str\<close> is the list of its code points, natural numbers below
  \<open>0x110000\<close>; the surrogate code points \<open>0xD800\<close> to \<open>0xDFFF\<close> may occur in it
  like any other. \<open>ascii\<close> turns a literal of the theory into such a string. Names of
  files, columns and metadata categories stay HOL strings.
\<close>

type_synonym str = "nat list"

definition ascii :: "string \<Rightarrow> str" where
  "ascii s = map of_char s"

definition is_str :: "str \<Rightarrow> bool" where
  "is_str s = list_all (\<lambda>c. c < 0x110000) s"

text \<open>
  The metadata values that travel through the PICRUSt (de)serialisers: \<open>None\<close>,
  booleans, strings and (nested) lists. A row of strings read from an HDF5 dataset,
  which is a numpy array, is represented by the list of its elements: the code only
  takes its first element.
\<close>

datatype pyval =
    PNone
  | PBool bool
  | PStr str
  | PList "pyval list"

section \<open>\<open>json.dumps\<close> and \<open>json.loads\<close>\<close>

text \<open>
  The standard library's encoder with its default settings (\<open>ensure_ascii=True\<close>,
  separators \<open>', '\<close>): inside the quotes, \<open>"\<close> (\<open>0x22\<close>) and \<open>\\<close> (\<open>0x5C\<close>) are
  escaped with a backslash, backspace, form feed, newline, carriage return and tab
  become \<open>\b \f \n \r \t\<close>, the other code points from \<open>' '\<close> to \<open>'~'\<close> stand for
  themselves, and every other code point becomes \<open>\uXXXX\<close> with four lowercase
  hexadecimal digits, or two such escapes, a UTF-16 surrogate pair, from \<open>0x10000\<close>
  on:
  \<^verbatim>\<open>
  n -= 0x10000
  s1 = 0xd800 | ((n >> 10) & 0x3ff)
  s2 = 0xdc00 | (n & 0x3ff)
  return '\\u{0:04x}\\u{1:04x}'.format(s1, s2)
  \<close>
  The right operand of each \<open>|\<close> is below \<open>0x400\<close> and the left one has no bit
  there, so \<open>|\<close> adds.
\<close>

definition hexdigit :: "nat \<Rightarrow> nat" where
  "hexdigit d = (if d < 10 then 48 + d else 87 + d)"

definition hex4 :: "nat \<Rightarrow> str" where
  "hex4 n = [hexdigit (n div 4096 mod 16), hexdigit (n div 256 mod 16),
             hexdigit (n div 16 mod 16), hexdigit (n mod 16)]"

definition py_encode_char :: "nat \<Rightarrow> str" where
  "py_encode_char c =
     (if c = 0x22 then [0x5C, 0x22]
      else if c = 0x5C then [0x5C, 0x5C]
      else if c = 0x0A then [0x5C, 0x6E]
      else if c = 0x0D then [0x5C, 0x72]
      else if c = 0x09 then [0x5C, 0x74]
      else if c = 0x08 then [0x5C, 0x62]
      else if c = 0x0C then [0x5C, 0x66]
      else if 0x20 \<le> c \<and> c \<le> 0x7E then [c]
      else if c < 0x10000 then [0x5C, 0x75] @ hex4 c
      else [0x5C, 0x75] @ hex4 (0xD800 + (c - 0x10000) div 1024 mod 1024)
         @ [0x5C, 0x75] @ hex4 (0xDC00 + (c - 0x10000) mod 1024))"

definition py_encode_basestring_ascii :: "str \<Rightarrow> str" where
  "py_encode_basestring_ascii s = 0x22 # concat (map py_encode_char s) @ [0x22]"

fun join :: "'a list \<Rightarrow> 'a list list \<Rightarrow> 'a list" where
  "join sep [] = []"
| "join sep [x] = x"
| "join sep (x # y # ys) = x @ sep @ join sep (y # ys)"

fun dumps :: "pyval \<Rightarrow> str" where
  "dumps PNone = ascii ''null''"
| "dumps (PBool b) = (if b then ascii ''true'' else ascii ''false'')"
| "dumps (PStr s) = py_encode_basestring_ascii s"
| "dumps (PList xs) = ascii ''['' @ join (ascii '', '') (map dumps xs) @ ascii '']''"

text \<open>
  The decoder. \<open>scanstring\<close> is entered after the opening quote and reads up to the
  closing one (strict mode: a raw control character is an error); it returns the decoded
  string and the rest of the input. An escape \<open>\uXXXX\<close> needs four hexadecimal
  digits. When it gives a high surrogate and the text goes on with \<open>\u\<close>, the next
  escape is decoded too, and if that is a low surrogate the two make one code point:
  \<^verbatim>\<open>
  uni = _decode_uXXXX(s, end)
  end += 5
  if 0xd800 <= uni <= 0xdbff and s[end:end + 2] == '\\u':
      uni2 = _decode_uXXXX(s, end + 1)
      if 0xdc00 <= uni2 <= 0xdfff:
          uni = 0x10000 + (((uni - 0xd800) << 10) | (uni2 - 0xdc00))
          end += 6
  char = chr(uni)
  \<close>
  \<open>low_surrogate_ahead\<close> is the look at the next escape: the low surrogate found
  there, if any.
\<close>

definition hexval :: "nat \<Rightarrow> nat option" where
  "hexval c =
     (if 48 \<le> c \<and> c \<le> 57 then Some (c - 48)
      else if 97 \<le> c \<and> c \<le> 102 then Some (c - 87)
      else if 65 \<le> c \<and> c \<le> 70 then Some (c - 55)
      else None)"

definition decode_uXXXX :: "str \<Rightarrow> nat option" where
  "decode_uXXXX esc =
     (case esc of
        [a, b, c, d] \<Rightarrow>
          (case (hexval a, hexval b, hexval c, hexval d) of
             (Some w, Some x, Some y, Some z) \<Rightarrow> Some (((w * 16 + x) * 16 + y) * 16 + z)
           | _ \<Rightarrow> None)
      | _ \<Rightarrow> None)"

definition BACKSLASH :: "nat \<Rightarrow> nat option" where
  "BACKSLASH e =
     (if e = 0x22 then Some 0x22
      else if e = 0x5C then Some 0x5C
      else if e = 0x2F then Some 0x2F
      else if e = 0x62 then Some 0x08
      else if e = 0x66 then Some 0x0C
      else if e = 0x6E then Some 0x0A
      else if e = 0x72 then Some 0x0D
      else if e = 0x74 then Some 0x09
      else None)"

definition high_surrogate :: "nat \<Rightarrow> bool" where
  "high_surrogate c = (0xD800 \<le> c \<and> c \<le> 0xDBFF)"

definition low_surrogate :: "nat \<Rightarrow> bool" where
  "low_surrogate c = (0xDC00 \<le> c \<and> c \<le> 0xDFFF)"

definition low_surrogate_ahead :: "str \<Rightarrow> error + nat option" where
  "low_surrogate_ahead s =
     (if take 2 s = [0x5C, 0x75] then
        (case decode_uXXXX (take 4 (drop 2 s)) of
           None \<Rightarrow> Inl JSONDecodeError
         | Some uni2 \<Rightarrow> Inr (if low_surrogate uni2 then Some uni2 else None))
      else Inr None)"

fun scanstring :: "str \<Rightarrow> str \<Rightarrow> error + (str \<times> str)" where
  "scanstring acc [] = Inl JSONDecodeError"
| "scanstring acc (c # r) =
     (if c = 0x22 then Inr (acc, r)
      else if c = 0x5C then
        (case r of
           [] \<Rightarrow> Inl JSONDecodeError
         | esc # r' \<Rightarrow>
             if esc \<noteq> 0x75 then
               (case BACKSLASH esc of
                  None \<Rightarrow> Inl JSONDecodeError
                | Some ch \<Rightarrow> scanstring (acc @ [ch]) r')
             else
               (case decode_uXXXX (take 4 r') of
                  None \<Rightarrow> Inl JSONDecodeError
                | Some uni \<Rightarrow>
                    if high_surrogate uni then
                      (case low_surrogate_ahead (drop 4 r') of
                         Inl e \<Rightarrow> Inl e
                       | Inr None \<Rightarrow> scanstring (acc @ [uni]) (drop 4 r')
                       | Inr (Some uni2) \<Rightarrow>
                           scanstring (acc @ [0x10000 + ((uni - 0xD800) * 1024 + (uni2 - 0xDC00))])
                             (drop 10 r'))
                    else scanstring (acc @ [uni]) (drop 4 r')))
      else if c < 0x20 then Inl JSONDecodeError
      else scanstring (acc @ [c]) r)"

definition is_ws :: "nat \<Rightarrow> bool" where
  "is_ws c = (c = 0x20 \<or> c = 0x09 \<or> c = 0x0A \<or> c = 0x0D)"

definition skip_ws :: "str \<Rightarrow> str" where
  "skip_ws s = dropWhile is_ws s"

definition match_lit :: "str \<Rightarrow> str \<Rightarrow> str option" where
  "match_lit lit s = (if take (length lit) s = lit then Some (drop (length lit) s) else None)"

text \<open>
  \<open>scan_once\<close> reads one value, \<open>scan_array\<close> the elements of an array after the
  opening bracket \<open>[\<close> (\<open>0x5B\<close>). Both take fuel, since the recursion into nested
  arrays is not structural. A call of \<open>scan_once\<close> consumes a character before it
  recurses and \<open>scan_array\<close> passes its input on unchanged, so two units of fuel per
  character are always enough; this is what \<open>loads_str\<close> supplies. An object, a
  number, \<open>NaN\<close> and \<open>Infinity\<close> are recognised by their first character and not
  decoded.
\<close>

fun scan_once :: "nat \<Rightarrow> str \<Rightarrow> error + (pyval \<times> str)"
  and scan_array :: "nat \<Rightarrow> pyval list \<Rightarrow> str \<Rightarrow> error + (pyval \<times> str)" where
  "scan_once 0 s = Inl JSONDecodeError"
| "scan_once (Suc n) [] = Inl JSONDecodeError"
| "scan_once (Suc n) (c # r) =
     (if c = 0x22 then
        (case scanstring [] r of
           Inl e \<Rightarrow> Inl e
         | Inr (s, r') \<Rightarrow> Inr (PStr s, r'))
      else if c = 0x5B then
        (case skip_ws r of
           [] \<Rightarrow> Inl JSONDecodeError
         | c' # r' \<Rightarrow>
             if c' = 0x5D then Inr (PList [], r') else scan_array n [] (c' # r'))
      else if c = 0x6E then
        (case match_lit (ascii ''ull'') r of
           None \<Rightarrow> Inl JSONDecodeError | Some r' \<Rightarrow> Inr (PNone, r'))
      else if c = 0x74 then
        (case match_lit (ascii ''rue'') r of
           None \<Rightarrow> Inl JSONDecodeError | Some r' \<Rightarrow> Inr (PBool True, r'))
      else if c = 0x66 then
        (case match_lit (ascii ''alse'') r of
           None \<Rightarrow> Inl JSONDecodeError | Some r' \<Rightarrow> Inr (PBool False, r'))
      else if c = 0x7B \<or> c = 0x2D \<or> c = 0x4E \<or> c = 0x49 \<or> (0x30 \<le> c \<and> c \<le> 0x39)
        then Inl Unsupported
      else Inl JSONDecodeError)"
| "scan_array 0 values s = Inl JSONDecodeError"
| "scan_array (Suc n) values s =
     (case scan_once n s of
        Inl e \<Rightarrow> Inl e
      | Inr (v, r) \<Rightarrow>
          (case skip_ws r of
             [] \<Rightarrow> Inl JSONDecodeError
           | c # r' \<Rightarrow>
               if c = 0x5D then Inr (PList (values @ [v]), r')
               else if c = 0x2C then scan_array n (values @ [v]) (skip_ws r')
               else Inl JSONDecodeError))"

definition loads_str :: "str \<Rightarrow> error + pyval" where
  "loads_str s =
     (case scan_once (2 * length s + 2) (skip_ws s) of
        Inl e \<Rightarrow> Inl e
      | Inr (v, r) \<Rightarrow> if skip_ws r = [] then Inr v else Inl JSONDecodeError)"

text \<open>\<open>json.loads\<close> on a Python value: anything but a \<open>str\<close> is a \<open>TypeError\<close>.\<close>

fun loads :: "pyval \<Rightarrow> error + pyval" where
  "loads (PStr s) = loads_str s"
| "loads _ = Inl TypeError"

text \<open>
  The encoder writes the two surrogates of a pair that stands in a string as two
  escapes, which the decoder reads as one code point. \<open>pair_free\<close> says that a string
  has no high surrogate directly followed by a low one, \<open>no_surrogate_pair\<close> that this
  holds of every string of a value.
\<close>

fun pair_free :: "str \<Rightarrow> bool" where
  "pair_free (c # d # s) = (\<not> (high_surrogate c \<and> low_surrogate d) \<and> pair_free (d # s))"
| "pair_free s = True"

fun no_surrogate_pair :: "pyval \<Rightarrow> bool" where
  "no_surrogate_pair PNone = True"
| "no_surrogate_pair (PBool b) = True"
| "no_surrogate_pair (PStr s) = (is_str s \<and> pair_free s)"
| "no_surrogate_pair (PList xs) = list_all no_surrogate_pair xs"

section \<open>The PICRUSt metadata parser and formatter\<close>

text \<open>\<open>arg[0]\<close>: the first element of a list or array, the first character of a string.\<close>

fun getitem0 :: "pyval \<Rightarrow> error + pyval" where
  "getitem0 (PList []) = Inl IndexError"
| "getitem0 (PList (x # xs)) = Inr x"
| "getitem0 (PStr []) = Inl IndexError"
| "getitem0 (PStr (c # cs)) = Inr (PStr [c])"
| "getitem0 _ = Inl TypeError"

text \<open>
  \<^verbatim>\<open>
  def picrust_parser(*args):
      new_value = []
      for arg in args:
           new_value.append(loads(arg[0]))
      return new_value if new_value else None
  \<close>
  \<open>parser_loop\<close> is the \<open>for\<close> loop, with \<open>new_value\<close> as its accumulator.
\<close>

fun parser_loop :: "pyval list \<Rightarrow> pyval list \<Rightarrow> error + pyval list" where
  "parser_loop new_value [] = Inr new_value"
| "parser_loop new_value (arg # args) =
     (case getitem0 arg of
        Inl e \<Rightarrow> Inl e
      | Inr a0 \<Rightarrow>
          (case loads a0 of
             Inl e \<Rightarrow> Inl e
           | Inr v \<Rightarrow> parser_loop (new_value @ [v]) args))"

definition picrust_parser :: "pyval list \<Rightarrow> error + pyval" where
  "picrust_parser args =
     (case parser_loop [] args of
        Inl e \<Rightarrow> Inl e
      | Inr new_value \<Rightarrow> Inr (if new_value \<noteq> [] then PList new_value else PNone))"

text \<open>
  \<^verbatim>\<open>
  def list_of_list_of_str_formatter(grp, header, md, compression):
      new_md = [{header: np.atleast_1d(np.asarray(dumps(m[header])))} for m in md]
      return (grp, header, new_md, compression)
  \<close>
  The axis metadata \<open>md\<close> is a list of dicts, one per row of the table. The transform
  replaces the value under \<open>header\<close> by a one-element array holding its JSON text;
  \<open>grp\<close> and \<open>compression\<close> pass through. \<open>m[header]\<close> raises \<open>KeyError\<close> when the
  key is missing.
\<close>

type_synonym pydict = "string \<rightharpoonup> pyval"

fun new_md_of :: "string \<Rightarrow> pydict list \<Rightarrow> error + pydict list" where
  "new_md_of header [] = Inr []"
| "new_md_of header (m # md) =
     (case m header of
        None \<Rightarrow> Inl (KeyError header)
      | Some v \<Rightarrow>
          (case new_md_of header md of
             Inl e \<Rightarrow> Inl e
           | Inr rest \<Rightarrow> Inr ([header \<mapsto> PList [PStr (dumps v)]] # rest)))"

definition list_of_list_of_str_formatter ::
  "'g \<Rightarrow> string \<Rightarrow> pydict list \<Rightarrow> bool \<Rightarrow> error + ('g \<times> string \<times> pydict list \<times> bool)" where
  "list_of_list_of_str_formatter grp header md compression =
     (case new_md_of header md of
        Inl e \<Rightarrow> Inl e
      | Inr new_md \<Rightarrow> Inr (grp, header, new_md, compression))"

text \<open>
  \<open>vlen_list_of_str_formatter\<close> belongs to the biom library. An HDF5 group is the map
  from the names of its datasets to their rows of strings.
  \<^verbatim>\<open>
  def vlen_list_of_str_formatter(grp, header, md, compression):
      iterable_checks = []
      lengths = []
      for m in md:
          if m[header] is None:
              iterable_checks.append(True)
          elif isinstance(m.get(header), str):
              iterable_checks.append(False)
          else:
              iterable_checks.append(isinstance(m.get(header, []), Iterable))
              lengths.append(len(m[header]))
      if not np.all(iterable_checks):
          if header == 'taxonomy':
              (split the flat strings at ';' and start again)
          else:
              raise TypeError(...)
      max_list_len = max(lengths)
      shape = (len(md), max_list_len)
      data = np.empty(shape, dtype=object)
      for i, m in enumerate(md):
          if m[header] is None:
              continue
          value = np.asarray(m[header])
          data[i, :len(value)] = [v.encode('utf8') for v in value]
      data = np.where(data == np.array(None), "", data)
      grp.create_dataset('metadata/%s' % header, shape=shape, dtype=H5PY_VLEN_STR,
                         data=data, compression=compression)
  \<close>
  \<open>vlen_checks\<close> is the first loop, \<open>vlen_rows\<close> the second. \<open>len\<close> of a boolean
  is a \<open>TypeError\<close>; \<open>max\<close> of no length at all is a \<open>ValueError\<close>; a string with a
  surrogate code point has no UTF-8 encoding; \<open>create_dataset\<close> raises
  \<open>ValueError\<close> when the group already has a dataset of that name. A row shorter
  than the longest one is filled up with empty strings. What numpy makes of a list
  with an element that is not a string, and the second attempt for \<open>taxonomy\<close>, are
  not modelled.
\<close>

type_synonym h5group = "string \<rightharpoonup> str list list"

fun vlen_check :: "pyval \<Rightarrow> error + (bool \<times> nat list)" where
  "vlen_check PNone = Inr (True, [])"
| "vlen_check (PStr s) = Inr (False, [])"
| "vlen_check (PList xs) = Inr (True, [length xs])"
| "vlen_check (PBool b) = Inl TypeError"

fun vlen_checks :: "string \<Rightarrow> pydict list \<Rightarrow> error + (bool list \<times> nat list)" where
  "vlen_checks header [] = Inr ([], [])"
| "vlen_checks header (m # md) =
     (case m header of
        None \<Rightarrow> Inl (KeyError header)
      | Some v \<Rightarrow>
          (case vlen_check v of
             Inl e \<Rightarrow> Inl e
           | Inr (iterable, len) \<Rightarrow>
               (case vlen_checks header md of
                  Inl e \<Rightarrow> Inl e
                | Inr (iterable_checks, lengths) \<Rightarrow>
                    Inr (iterable # iterable_checks, len @ lengths))))"

fun strings_of :: "pyval list \<Rightarrow> str list option" where
  "strings_of [] = Some []"
| "strings_of (PStr s # xs) = map_option ((#) s) (strings_of xs)"
| "strings_of (x # xs) = None"

definition encode_utf8_ok :: "str \<Rightarrow> bool" where
  "encode_utf8_ok s = list_all (\<lambda>c. c < 0xD800 \<or> 0xDFFF < c) s"

fun vlen_row :: "pyval \<Rightarrow> error + str list" where
  "vlen_row (PList xs) =
     (case strings_of xs of
        None \<Rightarrow> Inl Unsupported
      | Some ss \<Rightarrow> if list_all encode_utf8_ok ss then Inr ss else Inl UnicodeEncodeError)"
| "vlen_row v = Inr []"

fun vlen_rows :: "string \<Rightarrow> pydict list \<Rightarrow> error + str list list" where
  "vlen_rows header [] = Inr []"
| "vlen_rows header (m # md) =
     (case m header of
        None \<Rightarrow> Inl (KeyError header)
      | Some v \<Rightarrow>
          (case vlen_row v of
             Inl e \<Rightarrow> Inl e
           | Inr r \<Rightarrow>
               (case vlen_rows header md of
                  Inl e \<Rightarrow> Inl e
                | Inr rs \<Rightarrow> Inr (r # rs))))"

definition pad_row :: "nat \<Rightarrow> str list \<Rightarrow> str list" where
  "pad_row n r = r @ replicate (n - length r) []"

definition vlen_list_of_str_formatter ::
  "h5group \<Rightarrow> string \<Rightarrow> pydict list \<Rightarrow> bool \<Rightarrow> error + h5group" where
  "vlen_list_of_str_formatter grp header md compression =
     (case vlen_checks header md of
        Inl e \<Rightarrow> Inl e
      | Inr (iterable_checks, lengths) \<Rightarrow>
          if \<not> list_all (\<lambda>b. b) iterable_checks then
            (if header = ''taxonomy'' then Inl Unsupported else Inl TypeError)
          else if lengths = [] then Inl ValueError
          else
            (case vlen_rows header md of
               Inl e \<Rightarrow> Inl e
             | Inr data \<Rightarrow>
                 if grp (''metadata/'' @ header) \<noteq> None then Inl ValueError
                 else Inr (grp(''metadata/'' @ header \<mapsto> map (pad_row (Max (set lengths))) data))))"

text \<open>
  \<^verbatim>\<open>
  def picrust_formatter(*args):
      return vlen_list_of_str_formatter(*list_of_list_of_str_formatter(*args))
  \<close>
\<close>

definition picrust_formatter ::
  "h5group \<Rightarrow> string \<Rightarrow> pydict list \<Rightarrow> bool \<Rightarrow> error + h5group" where
  "picrust_formatter grp header md compression =
     (case list_of_list_of_str_formatter grp header md compression of
        Inl e \<Rightarrow> Inl e
      | Inr (grp', header', new_md, compression') \<Rightarrow>
          vlen_list_of_str_formatter grp' header' new_md compression')"

text \<open>
  Reading the table back, the library hands each row of the dataset, an array of
  strings, to the parser registered for the category (\<open>parse_fs\<close>) as its single
  argument.
\<close>

definition stored_value :: "h5group \<Rightarrow> string \<Rightarrow> nat \<Rightarrow> pyval option" where
  "stored_value grp header i =
     (case grp (''metadata/'' @ header) of
        None \<Rightarrow> None
      | Some rs \<Rightarrow> if i < length rs then Some (PList (map PStr (rs ! i))) else None)"

definition parse_stored :: "h5group \<Rightarrow> string \<Rightarrow> nat \<Rightarrow> error + pyval" where
  "parse_stored grp header i =
     (case stored_value grp header i of
        None \<Rightarrow> Inl (KeyError header)
      | Some row \<Rightarrow> picrust_parser [row])"

section \<open>pandas data frames\<close>

text \<open>
  A \<open>DataFrame\<close> is its column names and its rows in order, each row the label of the
  index with one value per column; \<open>None\<close> is the missing value \<open>NaN\<close>. Labels and
  column names may repeat, as in pandas. The alpha-diversity frames hold numbers (the
  floats of the source are real numbers here, without rounding); the sample metadata
  holds strings read with \<open>dtype=str\<close> and the numbers added to it.
\<close>

record 'a frame =
  columns :: "string list"
  rows :: "(string \<times> 'a option list) list"

datatype cell = S string | F real

definition index :: "'a frame \<Rightarrow> string list" where
  "index f = map fst (rows f)"

text \<open>
  The file \<open>alpha-diversity.tsv\<close> that \<open>qiime tools export\<close> writes has two columns:
  the sample identifiers under a blank header, which \<open>read_csv\<close> names
  \<open>Unnamed: 0\<close>, and the values under the name of the metric as the artifact
  records it.
\<close>

record alpha_tsv =
  value_header :: string
  entries :: "(string \<times> real option) list"

text \<open>
  \<open>.rename(columns={'Unnamed: 0': '#SampleID', metric: new}).set_index('#SampleID')\<close>:
  a column that the dict does not name keeps its name, and \<open>set_index\<close> needs the
  column \<open>#SampleID\<close>. A value column that is itself called \<open>Unnamed: 0\<close> or
  \<open>#SampleID\<close> would give two columns of that name, which is not modelled.
\<close>

definition rename_col :: "(string \<rightharpoonup> string) \<Rightarrow> string \<Rightarrow> string" where
  "rename_col d c = (case d c of None \<Rightarrow> c | Some c' \<Rightarrow> c')"

definition read_alpha :: "string \<Rightarrow> string \<Rightarrow> alpha_tsv \<Rightarrow> error + real frame" where
  "read_alpha metric new t =
     (let d = [''Unnamed: 0'' \<mapsto> ''#SampleID'', metric \<mapsto> new];
          c1 = rename_col d ''Unnamed: 0'';
          c2 = rename_col d (value_header t)
      in if c2 = ''#SampleID'' then Inl Unsupported
         else if c1 = ''#SampleID''
           then Inr \<lparr>columns = [c2], rows = map (\<lambda>(s, v). (s, [v])) (entries t)\<rparr>
         else Inl (KeyError ''#SampleID''))"

text \<open>
  \<open>pd.concat(frames, axis=1)\<close> joins the frames side by side on the union of their
  indexes (an outer join). When all indexes are the same the rows are paired by
  position; otherwise every index must be free of duplicates, the union is sorted, and a
  frame without a label contributes \<open>NaN\<close> in its columns.
\<close>

definition row_or_nan :: "'a frame \<Rightarrow> string \<Rightarrow> 'a option list" where
  "row_or_nan f l =
     (case map_of (rows f) l of
        None \<Rightarrow> replicate (length (columns f)) None
      | Some vs \<Rightarrow> vs)"

definition concat_axis1 :: "'a frame list \<Rightarrow> error + 'a frame" where
  "concat_axis1 fs =
     (case fs of
        [] \<Rightarrow> Inl ValueError
      | f # gs \<Rightarrow>
          if list_all (\<lambda>g. index g = index f) gs then
            Inr \<lparr>columns = concat (map columns fs),
                 rows = map (\<lambda>i. (index f ! i, concat (map (\<lambda>g. snd (rows g ! i)) fs)))
                            [0 ..< length (index f)]\<rparr>
          else if list_all (\<lambda>g. distinct (index g)) fs then
            Inr \<lparr>columns = concat (map columns fs),
                 rows = map (\<lambda>l. (l, concat (map (\<lambda>g. row_or_nan g l) fs)))
                            (sort (remdups (concat (map index fs))))\<rparr>
          else Inl ValueError)"

text \<open>\<open>frame.mean(1)\<close>: the mean of each row over the values that are not \<open>NaN\<close>.\<close>

definition present :: "'a option list \<Rightarrow> 'a list" where
  "present vs = concat (map (\<lambda>v. case v of None \<Rightarrow> [] | Some x \<Rightarrow> [x]) vs)"

definition row_mean :: "real option list \<Rightarrow> real option" where
  "row_mean vs =
     (if present vs = [] then None
      else Some (sum_list (present vs) / real (length (present vs))))"

definition mean_axis1 :: "real frame \<Rightarrow> (string \<times> real option) list" where
  "mean_axis1 f = map (\<lambda>(l, vs). (l, row_mean vs)) (rows f)"

text \<open>
  \<open>map_.loc[labels, col] = series\<close>: every label must be in the index
  (\<open>KeyError\<close> otherwise) and the series is aligned on its own index, which must be
  free of duplicates. A column that does not exist yet is appended, \<open>NaN\<close> in the rows
  that are not assigned.
\<close>

definition set_at :: "string list \<Rightarrow> string \<Rightarrow> 'a option \<Rightarrow> 'a option list \<Rightarrow> 'a option list" where
  "set_at cols col v vs = map (\<lambda>(c, old). if c = col then v else old) (zip cols vs)"

definition with_column :: "'a frame \<Rightarrow> string \<Rightarrow> 'a frame" where
  "with_column m col =
     (if col \<in> set (columns m) then m
      else \<lparr>columns = columns m @ [col], rows = map (\<lambda>(l, vs). (l, vs @ [None])) (rows m)\<rparr>)"

definition series_value :: "(string \<times> real option) list \<Rightarrow> string \<Rightarrow> cell option" where
  "series_value series l = (case map_of series l of None \<Rightarrow> None | Some v \<Rightarrow> map_option F v)"

definition assign_row ::
  "string list \<Rightarrow> string list \<Rightarrow> string \<Rightarrow> (string \<times> real option) list
     \<Rightarrow> string \<times> cell option list \<Rightarrow> string \<times> cell option list" where
  "assign_row cols labels col series r =
     (if fst r \<in> set labels
      then (fst r, set_at cols col (series_value series (fst r)) (snd r))
      else r)"

definition loc_set ::
  "cell frame \<Rightarrow> string list \<Rightarrow> string \<Rightarrow> (string \<times> real option) list \<Rightarrow> error + cell frame" where
  "loc_set m labels col series =
     (case filter (\<lambda>l. l \<notin> set (index m)) labels of
        l # ls \<Rightarrow> Inl (KeyError l)
      | [] \<Rightarrow>
          if \<not> distinct (map fst series) then Inl ValueError
          else Inr \<lparr>columns = columns (with_column m col),
                    rows = map (assign_row (columns (with_column m col)) labels col series)
                               (rows (with_column m col))\<rparr>)"

text \<open>\<open>frame.dropna()\<close> keeps the rows without any missing value.\<close>

definition dropna :: "'a frame \<Rightarrow> 'a frame" where
  "dropna f = \<lparr>columns = columns f, rows = filter (\<lambda>(l, vs). list_all (\<lambda>v. v \<noteq> None) vs) (rows f)\<rparr>"

text \<open>
  A frame is well formed when every row has one value per column. \<open>cell_of\<close> is the
  value of a row under a column name (the first column of that name, \<open>NaN\<close> when there
  is none), and \<open>value_at\<close> the value of a frame at a label and a column name (the
  first of each).
\<close>

definition wf_frame :: "'a frame \<Rightarrow> bool" where
  "wf_frame f = list_all (\<lambda>(l, vs). length vs = length (columns f)) (rows f)"

definition cell_of :: "string list \<Rightarrow> 'a option list \<Rightarrow> string \<Rightarrow> 'a option" where
  "cell_of cols vs c = (case map_of (zip cols vs) c of None \<Rightarrow> None | Some v \<Rightarrow> v)"

definition value_at :: "'a frame \<Rightarrow> string \<Rightarrow> string \<Rightarrow> 'a option" where
  "value_at f l c =
     (case map_of (rows f) l of
        None \<Rightarrow> None
      | Some vs \<Rightarrow> cell_of (columns f) vs c)"

section \<open>biom tables\<close>

text \<open>
  A biom table: the identifiers of its observations (features) and samples, the
  observation metadata and the count matrix, one row per observation and one column
  per sample. The observation metadata is \<open>None\<close> when the table has none, and
  otherwise one dict per observation; each is a \<open>defaultdict\<close> whose missing keys
  read as \<open>None\<close>. Sample metadata plays no part in the notebook and is left out.
\<close>

type_synonym md = "(string \<times> pyval) list"

record table =
  obs_ids :: "string list"
  samp_ids :: "string list"
  obs_md :: "md list option"
  matrix :: "real list list"

text \<open>
  \<open>table.filter(ids, axis='sample', inplace=...)\<close> keeps the samples whose identifier
  is among \<open>ids\<close>. With \<open>inplace=True\<close> the table itself is changed and returned;
  with \<open>inplace=False\<close> a filtered copy is returned and the table stays as it was.
  \<open>table_filter\<close> returns the table after the call and the result of the call.
\<close>

definition keep_columns :: "string list \<Rightarrow> string list \<Rightarrow> 'a list \<Rightarrow> 'a list" where
  "keep_columns ids sids vs = map snd (filter (\<lambda>(s, v). s \<in> set ids) (zip sids vs))"

definition filter_samples :: "string list \<Rightarrow> table \<Rightarrow> table" where
  "filter_samples ids t =
     t\<lparr>samp_ids := filter (\<lambda>s. s \<in> set ids) (samp_ids t),
       matrix := map (keep_columns ids (samp_ids t)) (matrix t)\<rparr>"

definition table_filter :: "string list \<Rightarrow> bool \<Rightarrow> table \<Rightarrow> table \<times> table" where
  "table_filter ids inplace t =
     (if inplace then (filter_samples ids t, filter_samples ids t)
      else (t, filter_samples ids t))"

text \<open>
  \<open>table.add_metadata(md, axis='observation')\<close>:
  \<^verbatim>\<open>
  metadata = self.metadata(axis=axis)
  if metadata is not None:
      for id_, md_entry in md.items():
          if self.exists(id_, axis=axis):
              idx = self.index(id_, axis=axis)
              metadata[idx].update(md_entry)
  else:
      ids = self.ids(axis=axis)
      self._observation_metadata = tuple(
          [md[id_] if id_ in md else None for id_ in ids])
  self._cast_metadata()
  \<close>
  A table with metadata has the dict of every observation named in \<open>md\<close> updated.
  A table without gets the entries of \<open>md\<close> as its metadata, \<open>None\<close> for an
  observation that \<open>md\<close> does not name; the cast that follows turns metadata made of
  \<open>None\<close> only into no metadata, and otherwise each \<open>None\<close> into an empty dict.
\<close>

definition md_update :: "md \<Rightarrow> md \<Rightarrow> md" where
  "md_update old new = new @ filter (\<lambda>(k, v). k \<notin> set (map fst new)) old"

definition cast_metadata :: "md option list \<Rightarrow> md list option" where
  "cast_metadata items =
     (if list_all (\<lambda>m. m = None) items then None
      else Some (map (\<lambda>m. case m of None \<Rightarrow> [] | Some d \<Rightarrow> d) items))"

definition add_metadata :: "(string \<times> md) list \<Rightarrow> table \<Rightarrow> table" where
  "add_metadata lookup_md t =
     (case obs_md t of
        Some mds \<Rightarrow>
          t\<lparr>obs_md := cast_metadata
                 (map (\<lambda>(i, m). case map_of lookup_md i of
                                   None \<Rightarrow> Some m
                                 | Some md_entry \<Rightarrow> Some (md_update m md_entry))
                      (zip (obs_ids t) mds))\<rparr>
      | None \<Rightarrow> t\<lparr>obs_md := cast_metadata (map (map_of lookup_md) (obs_ids t))\<rparr>)"

section \<open>The file system\<close>

text \<open>
  A path is the list of its components below the working directory: \<open>./a/b\<close> is
  \<open>[a, b]\<close> and \<open>[]\<close> is the working directory itself. A file holds text, one of the
  tables above, or a QIIME 2 artifact; an artifact is an archive with a UUID and the
  files packed in it, those of its payload under \<open>data/\<close>.
\<close>

type_synonym path = "string list"

datatype content =
    Text string
  | AlphaTsv alpha_tsv
  | FloatCsv string "real frame"
  | MapCsv string "cell frame"
  | Biom table
  | Qza string "(path \<times> content) list"

datatype node = File content | Dir

type_synonym fs = "(path \<times> node) list"

definition exists_path :: "fs \<Rightarrow> path \<Rightarrow> bool" where
  "exists_path fs p = (p = [] \<or> map_of fs p \<noteq> None)"

definition is_dir :: "fs \<Rightarrow> path \<Rightarrow> bool" where
  "is_dir fs p = (p = [] \<or> map_of fs p = Some Dir)"

definition remove :: "fs \<Rightarrow> path \<Rightarrow> fs" where
  "remove fs p = filter (\<lambda>e. fst e \<noteq> p) fs"

definition put :: "fs \<Rightarrow> path \<Rightarrow> node \<Rightarrow> fs" where
  "put fs p n = (p, n) # remove fs p"

definition inside :: "path \<Rightarrow> path \<Rightarrow> bool" where
  "inside d p = (take (length d) p = d)"

text \<open>
  \<open>mkdir_p\<close> creates a directory and the missing ones above it; it fails when one of
  them is a file. \<open>os.makedirs\<close> also refuses a leaf that exists.
\<close>

fun make_prefixes :: "nat \<Rightarrow> path \<Rightarrow> fs \<Rightarrow> fs option" where
  "make_prefixes 0 p fs = Some fs"
| "make_prefixes (Suc k) p fs =
     (case make_prefixes k p fs of
        None \<Rightarrow> None
      | Some fs' \<Rightarrow>
          (case map_of fs' (take (Suc k) p) of
             None \<Rightarrow> Some (put fs' (take (Suc k) p) Dir)
           | Some Dir \<Rightarrow> Some fs'
           | Some (File c) \<Rightarrow> None))"

definition mkdir_p :: "fs \<Rightarrow> path \<Rightarrow> fs option" where
  "mkdir_p fs p = make_prefixes (length p) p fs"

definition makedirs :: "fs \<Rightarrow> path \<Rightarrow> error + fs" where
  "makedirs fs p =
     (if exists_path fs p then Inl OSError
      else case mkdir_p fs p of None \<Rightarrow> Inl OSError | Some fs' \<Rightarrow> Inr fs')"

text \<open>Opening a file for writing needs its directory and replaces what the file held.\<close>

definition write_file :: "fs \<Rightarrow> path \<Rightarrow> content \<Rightarrow> error + fs" where
  "write_file fs p c =
     (if p = [] \<or> \<not> is_dir fs (butlast p) then Inl FileNotFoundError
      else if map_of fs p = Some Dir then Inl OSError
      else Inr (put fs p (File c)))"

definition children :: "fs \<Rightarrow> path \<Rightarrow> string list" where
  "children fs d = remdups (map (last \<circ> fst) (filter (\<lambda>e. fst e \<noteq> [] \<and> butlast (fst e) = d) fs))"

definition listdir :: "fs \<Rightarrow> path \<Rightarrow> error + string list" where
  "listdir fs d = (if is_dir fs d then Inr (children fs d) else Inl FileNotFoundError)"

text \<open>The shell's \<open>rm -r\<close> removes a path and all below it, and reports nothing.\<close>

definition rm_r :: "fs \<Rightarrow> path \<Rightarrow> fs" where
  "rm_r fs p = filter (\<lambda>e. \<not> inside p (fst e)) fs"

definition rmdir :: "fs \<Rightarrow> path \<Rightarrow> error + fs" where
  "rmdir fs p =
     (if map_of fs p = Some Dir \<and> children fs p = [] then Inr (remove fs p) else Inl OSError)"

text \<open>
  \<open>os.removedirs\<close> removes the leaf directory, which must be empty, and then every
  parent in turn for as long as that succeeds. \<open>prune\<close> takes the parent reversed.
\<close>

fun prune :: "path \<Rightarrow> fs \<Rightarrow> fs" where
  "prune [] fs = fs"
| "prune (x # xs) fs =
     (case rmdir fs (rev (x # xs)) of Inl e \<Rightarrow> fs | Inr fs' \<Rightarrow> prune xs fs')"

definition removedirs :: "fs \<Rightarrow> path \<Rightarrow> error + fs" where
  "removedirs fs p =
     (case rmdir fs p of Inl e \<Rightarrow> Inl e | Inr fs' \<Rightarrow> Inr (prune (rev (butlast p)) fs'))"

text \<open>
  \<open>shutil.move(src, dst)\<close>: into \<open>dst\<close> when that is a directory, onto \<open>dst\<close>
  otherwise, replacing a file that is there.
\<close>

definition move :: "fs \<Rightarrow> path \<Rightarrow> path \<Rightarrow> error + fs" where
  "move fs src dst =
     (case map_of fs src of
        None \<Rightarrow> Inl FileNotFoundError
      | Some n \<Rightarrow>
          let real_dst = (if is_dir fs dst then dst @ [last src] else dst) in
          if is_dir fs dst \<and> exists_path fs real_dst then Inl OSError
          else if \<not> is_dir fs (butlast real_dst) then Inl FileNotFoundError
          else (case n of
                  File c \<Rightarrow> Inr (put (remove fs src) real_dst (File c))
                | Dir \<Rightarrow>
                    Inr (map (\<lambda>(q, m). if inside src q
                                         then (real_dst @ drop (length src) q, m)
                                         else (q, m)) fs)))"

text \<open>
  The QIIME 2 command line. \<open>qiime tools extract\<close> unpacks the whole archive into a
  new directory \<open><output-dir>/<uuid>/\<close>; \<open>qiime tools export\<close> copies the files
  below \<open>data/\<close> into the output directory, over files of the same name. Both create
  the output directory when it is missing. Run with \<open>!\<close> from the notebook, a tool
  that fails prints its message and the cell goes on; a tool that fails is taken to
  write nothing.

  An archive is well formed when no two of its files have the same path and no file
  sits where another one needs a directory. Unpacking puts the files and the
  directories they need in front of the entries that are there: the first entry for a
  path is the current one.
\<close>

definition archive_dirs :: "(path \<times> content) list \<Rightarrow> path list" where
  "archive_dirs es =
     remdups (concat (map (\<lambda>(rel, c). map (\<lambda>k. take k rel) [1 ..< length rel]) es))"

definition wf_archive :: "(path \<times> content) list \<Rightarrow> bool" where
  "wf_archive es =
     (distinct (map fst es) \<and> list_all (\<lambda>(rel, c). rel \<noteq> [] \<and> rel \<notin> set (archive_dirs es)) es)"

definition unpack :: "fs \<Rightarrow> path \<Rightarrow> (path \<times> content) list \<Rightarrow> fs" where
  "unpack fs base es =
     map (\<lambda>(rel, c). (base @ rel, File c)) es
       @ map (\<lambda>d. (base @ d, Dir)) (archive_dirs es) @ fs"

definition unpackable :: "fs \<Rightarrow> path \<Rightarrow> (path \<times> content) list \<Rightarrow> bool" where
  "unpackable fs base es =
     (wf_archive es
      \<and> list_all (\<lambda>(rel, c). map_of fs (base @ rel) \<noteq> Some Dir) es
      \<and> list_all (\<lambda>d. map_of fs (base @ d) = None \<or> map_of fs (base @ d) = Some Dir)
           (archive_dirs es))"

definition qiime_tools_extract :: "fs \<Rightarrow> path \<Rightarrow> path \<Rightarrow> fs" where
  "qiime_tools_extract fs artifact output_dir =
     (case map_of fs artifact of
        Some (File (Qza uuid es)) \<Rightarrow>
          if exists_path fs (output_dir @ [uuid]) then fs
          else (case mkdir_p fs (output_dir @ [uuid]) of
                  None \<Rightarrow> fs
                | Some fs1 \<Rightarrow>
                    if unpackable fs1 (output_dir @ [uuid]) es
                    then unpack fs1 (output_dir @ [uuid]) es else fs)
      | _ \<Rightarrow> fs)"

definition data_entries :: "(path \<times> content) list \<Rightarrow> (path \<times> content) list" where
  "data_entries es =
     concat (map (\<lambda>(rel, c). case rel of
                                [] \<Rightarrow> []
                              | d # rest \<Rightarrow> if d = ''data'' \<and> rest \<noteq> [] then [(rest, c)] else [])
                 es)"

definition qiime_tools_export :: "fs \<Rightarrow> path \<Rightarrow> path \<Rightarrow> fs" where
  "qiime_tools_export fs artifact output_dir =
     (case map_of fs artifact of
        Some (File (Qza uuid es)) \<Rightarrow>
          (case mkdir_p fs output_dir of
             None \<Rightarrow> fs
           | Some fs1 \<Rightarrow>
               if unpackable fs1 output_dir (data_entries es)
               then unpack fs1 output_dir (data_entries es) else fs)
      | _ \<Rightarrow> fs)"

text \<open>
  \<open>biom subset-table --input-hdf5-fp t --ids f --axis sample --output-fp o\<close> reads one
  identifier per line of \<open>f\<close> and writes the table restricted to these samples; it
  refuses identifiers that the table does not have. It is run with \<open>!\<close> as well.
\<close>

fun split_lines :: "string \<Rightarrow> string \<Rightarrow> string list" where
  "split_lines cur [] = (if cur = [] then [] else [cur])"
| "split_lines cur (c # cs) =
     (if c = CHR 0x0A then cur # split_lines [] cs else split_lines (cur @ [c]) cs)"

definition file_lines :: "string \<Rightarrow> string list" where
  "file_lines txt = split_lines [] txt"

definition biom_subset_table :: "fs \<Rightarrow> path \<Rightarrow> path \<Rightarrow> path \<Rightarrow> fs" where
  "biom_subset_table fs input ids_fp output =
     (case (map_of fs input, map_of fs ids_fp) of
        (Some (File (Biom t)), Some (File (Text txt))) \<Rightarrow>
          if list_all (\<lambda>i. i \<in> set (samp_ids t)) (file_lines txt)
          then (case write_file fs output (Biom (filter_samples (file_lines txt) t)) of
                  Inl e \<Rightarrow> fs
                | Inr fs' \<Rightarrow> fs')
          else fs
      | _ \<Rightarrow> fs)"

section \<open>The notebook's cells\<close>

subsection \<open>The kernel's namespace\<close>

text \<open>
  The cells share the kernel's global namespace. \<open>modules\<close> are the names bound by
  \<open>import\<close>; each other field is a global variable, \<open>None\<close> while the name is
  unbound, and reading an unbound name raises \<open>NameError\<close>. The notebook has
  \<open>import biom\<close> only: the bare name \<open>load_table\<close> is a variable of its own, which
  no cell assigns. \<open>f_\<close>, when bound, is the file of a \<open>with\<close> block that has
  ended, a closed handle. The loop variables and the paths computed inside a cell are
  not kept here. A name cannot end in an underscore in Isabelle: \<open>table_\<close>, \<open>f_\<close>,
  \<open>map_\<close>, \<open>alpha_\<close> and \<open>id_\<close> are \<open>table_var\<close>, \<open>f_var\<close>, \<open>map_var\<close>,
  \<open>alpha_var\<close> and \<open>id_var\<close>.
\<close>

record kernel =
  modules :: "string list"
  depths :: "string list option"
  alpha_metrics :: "string list option"
  load_table :: "(path list \<Rightarrow> fs \<Rightarrow> error + table) option"
  raw_t :: "table option"
  taxa_lookup :: "(string \<times> md) list option"
  table_var :: "table option"
  f_var :: "path option"

definition fresh :: kernel where
  "fresh = \<lparr>modules = [], depths = None, alpha_metrics = None, load_table = None,
            raw_t = None, taxa_lookup = None, table_var = None, f_var = None\<rparr>"

definition need_module :: "kernel \<Rightarrow> string \<Rightarrow> error + unit" where
  "need_module k name = (if name \<in> set (modules k) then Inr () else Inl (NameError name))"

text \<open>Cell 2, the imports, and cell 4, the depths and metrics.\<close>

definition cell_imports :: "kernel \<Rightarrow> fs \<Rightarrow> error + (kernel \<times> fs)" where
  "cell_imports k fs =
     Inr (k\<lparr>modules := ''os'' # ''shutil'' # ''biom'' # ''h5py'' # ''np'' # ''pd'' # modules k\<rparr>, fs)"

definition cell_depths :: "kernel \<Rightarrow> fs \<Rightarrow> error + (kernel \<times> fs)" where
  "cell_depths k fs =
     Inr (k\<lparr>depths := Some [''1250'', ''2500'', ''5000'', ''10000'', ''50000''],
            alpha_metrics := Some [''observed_otus'', ''faiths_pd'', ''shannon'']\<rparr>, fs)"

text \<open>
  Cell 6:
  \<^verbatim>\<open>
  for depth in depths:
      dir_path = './03.packaged/%s' % depth
      if not os.path.exists(dir_path):
          os.makedirs(dir_path)
  \<close>
\<close>

fun mkdirs_loop :: "kernel \<Rightarrow> string list \<Rightarrow> fs \<Rightarrow> error + fs" where
  "mkdirs_loop k [] fs = Inr fs"
| "mkdirs_loop k (depth # ds) fs =
     (case need_module k ''os'' of
        Inl e \<Rightarrow> Inl e
      | Inr u \<Rightarrow>
          if \<not> exists_path fs [''03.packaged'', depth] then
            (case makedirs fs [''03.packaged'', depth] of
               Inl e \<Rightarrow> Inl e
             | Inr fs' \<Rightarrow> mkdirs_loop k ds fs')
          else mkdirs_loop k ds fs)"

definition cell_mkdirs :: "kernel \<Rightarrow> fs \<Rightarrow> error + (kernel \<times> fs)" where
  "cell_mkdirs k fs =
     (case depths k of
        None \<Rightarrow> Inl (NameError ''depths'')
      | Some ds \<Rightarrow>
          (case mkdirs_loop k ds fs of Inl e \<Rightarrow> Inl e | Inr fs' \<Rightarrow> Inr (k, fs')))"

subsection \<open>The taxonomy lookup\<close>

text \<open>
  Cell 8:
  \<^verbatim>\<open>
  raw_t = load_table('./03.packaged/1250/deblur_125nt_no_blooms.biom')
  taxa_lookup = {id_: {'taxonomy': raw_t.metadata(id_, axis='observation')['taxonomy']}
                 for id_ in raw_t.ids(axis='observation')}
  \<close>
  \<open>raw_t.metadata(id_, axis='observation')\<close> is \<open>None\<close> when the table has no
  observation metadata, and subscripting \<open>None\<close> is a \<open>TypeError\<close>. Otherwise it is
  the dict of the observation, which gives \<open>None\<close> for a key it does not have. The
  lookup is a dict, here the list of its items.
\<close>

definition metadata :: "table \<Rightarrow> string \<Rightarrow> md option" where
  "metadata t id_var =
     (case obs_md t of
        None \<Rightarrow> None
      | Some mds \<Rightarrow> map_of (zip (obs_ids t) mds) id_var)"

definition getitem_default :: "md \<Rightarrow> string \<Rightarrow> pyval" where
  "getitem_default d key = (case map_of d key of None \<Rightarrow> PNone | Some v \<Rightarrow> v)"

fun build_taxa_lookup :: "table \<Rightarrow> string list \<Rightarrow> error + (string \<times> md) list" where
  "build_taxa_lookup t [] = Inr []"
| "build_taxa_lookup t (id_var # ids) =
     (case metadata t id_var of
        None \<Rightarrow> Inl TypeError
      | Some d \<Rightarrow>
          (case build_taxa_lookup t ids of
             Inl e \<Rightarrow> Inl e
           | Inr l \<Rightarrow> Inr ((id_var, [(''taxonomy'', getitem_default d ''taxonomy'')]) # l)))"

definition cell_taxa_lookup :: "kernel \<Rightarrow> fs \<Rightarrow> error + (kernel \<times> fs)" where
  "cell_taxa_lookup k fs =
     (case load_table k of
        None \<Rightarrow> Inl (NameError ''load_table'')
      | Some f \<Rightarrow>
          (case f [[''03.packaged'', ''1250'', ''deblur_125nt_no_blooms.biom'']] fs of
             Inl e \<Rightarrow> Inl e
           | Inr t \<Rightarrow>
               (case build_taxa_lookup t (obs_ids t) of
                  Inl e \<Rightarrow> Inl e
                | Inr l \<Rightarrow> Inr (k\<lparr>raw_t := Some t, taxa_lookup := Some l\<rparr>, fs))))"

subsection \<open>The rarefied tables\<close>

text \<open>
  \<open>biom.load_table(f)\<close> takes one argument, the path of the table; any other number
  of positional arguments is a \<open>TypeError\<close>. \<open>biom.util.biom_open(fp, 'r')\<close> opens
  an existing file for reading.
\<close>

definition biom_load_table :: "path list \<Rightarrow> fs \<Rightarrow> error + table" where
  "biom_load_table args fs =
     (case args of
        [fp] \<Rightarrow>
          (case map_of fs fp of
             None \<Rightarrow> Inl FileNotFoundError
           | Some Dir \<Rightarrow> Inl OSError
           | Some (File (Biom t)) \<Rightarrow> Inr t
           | Some (File c) \<Rightarrow> Inl TypeError)
      | _ \<Rightarrow> Inl TypeError)"

definition biom_open_r :: "fs \<Rightarrow> path \<Rightarrow> error + unit" where
  "biom_open_r fs fp =
     (case map_of fs fp of
        None \<Rightarrow> Inl FileNotFoundError
      | Some Dir \<Rightarrow> Inl OSError
      | Some (File c) \<Rightarrow> Inr ())"

text \<open>
  Cell 10, for one depth:
  \<^verbatim>\<open>
  old_table_fp = './02.build_package/02.rarefied/%s/deblur_125nt_0.qza' % depth
  new_table_fp = './03.packaged/%s/deblur_125nt_no_blooms_rare.biom' % (depth)
  temp_dir = './table_temp'
  !qiime tools export $old_table_fp --output-dir $temp_dir
  table_ = biom.load_table(os.path.join(temp_dir, 'feature-table.biom'), new_table_fp)
  table_.add_metadata(taxa_lookup, axis='observation')
  with biom.util.biom_open(new_table_fp, 'r'):
      table_.to_hdf5(f_, 'rarefied with taxa')
  os.removedirs(temp_dir)
  \<close>
  The \<open>with\<close> statement binds no name, so \<open>f_\<close> is the global of that name; writing
  a table to a closed handle fails.
\<close>

definition to_hdf5_closed :: "path \<Rightarrow> table \<Rightarrow> fs \<Rightarrow> error + fs" where
  "to_hdf5_closed h t fs = Inl ValueError"

definition export_depth :: "string \<Rightarrow> kernel \<Rightarrow> fs \<Rightarrow> error + (kernel \<times> fs)" where
  "export_depth depth k fs =
     (let old_table_fp = [''02.build_package'', ''02.rarefied'', depth, ''deblur_125nt_0.qza''];
          new_table_fp = [''03.packaged'', depth, ''deblur_125nt_no_blooms_rare.biom''];
          temp_dir = [''table_temp''];
          fs1 = qiime_tools_export fs old_table_fp temp_dir
      in case need_module k ''biom'' of
           Inl e \<Rightarrow> Inl e
         | Inr u \<Rightarrow>
        (case need_module k ''os'' of
           Inl e \<Rightarrow> Inl e
         | Inr u \<Rightarrow>
        (case biom_load_table [temp_dir @ [''feature-table.biom''], new_table_fp] fs1 of
           Inl e \<Rightarrow> Inl e
         | Inr t \<Rightarrow>
        (case taxa_lookup k of
           None \<Rightarrow> Inl (NameError ''taxa_lookup'')
         | Some l \<Rightarrow>
        (case biom_open_r fs1 new_table_fp of
           Inl e \<Rightarrow> Inl e
         | Inr u \<Rightarrow>
        (case f_var k of
           None \<Rightarrow> Inl (NameError ''f_'')
         | Some h \<Rightarrow>
        (case to_hdf5_closed h (add_metadata l t) fs1 of
           Inl e \<Rightarrow> Inl e
         | Inr fs2 \<Rightarrow>
        (case removedirs fs2 temp_dir of
           Inl e \<Rightarrow> Inl e
         | Inr fs3 \<Rightarrow> Inr (k\<lparr>table_var := Some (add_metadata l t)\<rparr>, fs3)))))))))"

fun export_loop :: "string list \<Rightarrow> kernel \<Rightarrow> fs \<Rightarrow> error + (kernel \<times> fs)" where
  "export_loop [] k fs = Inr (k, fs)"
| "export_loop (depth # ds) k fs =
     (case export_depth depth k fs of
        Inl e \<Rightarrow> Inl e
      | Inr (k', fs') \<Rightarrow> export_loop ds k' fs')"

definition cell_export :: "kernel \<Rightarrow> fs \<Rightarrow> error + (kernel \<times> fs)" where
  "cell_export k fs =
     (case depths k of
        None \<Rightarrow> Inl (NameError ''depths'')
      | Some ds \<Rightarrow> export_loop ds k fs)"

text \<open>
  Cells run in order; \<open>run_cells\<close> stops at the first one that raises, as
  \<open>Run All\<close> does.
\<close>

fun run_cells ::
  "(kernel \<Rightarrow> fs \<Rightarrow> error + (kernel \<times> fs)) list \<Rightarrow> kernel \<Rightarrow> fs \<Rightarrow> error + (kernel \<times> fs)" where
  "run_cells [] k fs = Inr (k, fs)"
| "run_cells (c # cs) k fs =
     (case c k fs of Inl e \<Rightarrow> Inl e | Inr (k', fs') \<Rightarrow> run_cells cs k' fs')"

subsection \<open>Metadata and alpha diversity\<close>

text \<open>\<open>'%i' % i\<close>, the decimal digits of a number.\<close>

fun show_nat :: "nat \<Rightarrow> string" where
  "show_nat n =
     (if n < 10 then [char_of (48 + n)] else show_nat (n div 10) @ [char_of (48 + n mod 10)])"

definition packaged :: "string \<Rightarrow> string \<Rightarrow> path" where
  "packaged depth name = [''03.packaged'', depth, name]"

definition read_csv_alpha :: "fs \<Rightarrow> path \<Rightarrow> error + alpha_tsv" where
  "read_csv_alpha fs fp =
     (case map_of fs fp of
        None \<Rightarrow> Inl FileNotFoundError
      | Some Dir \<Rightarrow> Inl OSError
      | Some (File (AlphaTsv t)) \<Rightarrow> Inr t
      | Some (File c) \<Rightarrow> Inl Unsupported)"

text \<open>
  Cell 15, the innermost loop:
  \<^verbatim>\<open>
  for i in np.arange(0, 10):
      alpha_artifact = './02.build_package/03.alpha/%s/%s_r%i.qza' % (depth, metric, i)
      alpha_dir = './02.build_package/03.alpha/%s/%s/' % (depth, metric)
      !qiime tools export $alpha_artifact --output-dir $alpha_dir
      alpha_.append(pd.read_csv(os.path.join(alpha_dir, 'alpha-diversity.tsv'),
                                sep='\t', dtype=str
                               ).rename(columns={'Unnamed: 0': '#SampleID',
                                                 metric: '%s_%s_%i' % (metric, depth, i)}
                                       ).set_index('#SampleID'))
  \<close>
  Every iteration exports into the same directory, over the file of the one before.
\<close>

definition alpha_artifact :: "string \<Rightarrow> string \<Rightarrow> nat \<Rightarrow> path" where
  "alpha_artifact depth metric i =
     [''02.build_package'', ''03.alpha'', depth, metric @ ''_r'' @ show_nat i @ ''.qza'']"

definition alpha_dir :: "string \<Rightarrow> string \<Rightarrow> path" where
  "alpha_dir depth metric = [''02.build_package'', ''03.alpha'', depth, metric]"

definition alpha_column :: "string \<Rightarrow> string \<Rightarrow> nat \<Rightarrow> string" where
  "alpha_column metric depth i = metric @ ''_'' @ depth @ ''_'' @ show_nat i"

definition alpha_iteration ::
  "string \<Rightarrow> string \<Rightarrow> nat \<Rightarrow> fs \<Rightarrow> error + (real frame \<times> fs)" where
  "alpha_iteration depth metric i fs =
     (let fs1 = qiime_tools_export fs (alpha_artifact depth metric i) (alpha_dir depth metric)
      in case read_csv_alpha fs1 (alpha_dir depth metric @ [''alpha-diversity.tsv'']) of
           Inl e \<Rightarrow> Inl e
         | Inr t \<Rightarrow>
             (case read_alpha metric (alpha_column metric depth i) t of
                Inl e \<Rightarrow> Inl e
              | Inr fr \<Rightarrow> Inr (fr, fs1)))"

fun alpha_iterations ::
  "string \<Rightarrow> string \<Rightarrow> nat list \<Rightarrow> real frame list \<Rightarrow> fs \<Rightarrow> error + (real frame list \<times> fs)" where
  "alpha_iterations depth metric [] alpha_var fs = Inr (alpha_var, fs)"
| "alpha_iterations depth metric (i # is) alpha_var fs =
     (case alpha_iteration depth metric i fs of
        Inl e \<Rightarrow> Inl e
      | Inr (fr, fs1) \<Rightarrow> alpha_iterations depth metric is (alpha_var @ [fr]) fs1)"

text \<open>
  The rest of the metric loop's body:
  \<^verbatim>\<open>
  alpha_ = pd.concat(alpha_, axis=1).astype(float)
  collated.append(alpha_)
  map_.loc[alpha_.index, '%s_%s' % (metric, depth)] = alpha_.mean(1)
  \<close>
\<close>

definition mean_column :: "string \<Rightarrow> string \<Rightarrow> string" where
  "mean_column metric depth = metric @ ''_'' @ depth"

definition metric_step ::
  "string \<Rightarrow> string \<Rightarrow> cell frame option \<times> real frame list \<times> fs
     \<Rightarrow> error + (cell frame option \<times> real frame list \<times> fs)" where
  "metric_step depth metric st =
     (case st of (map_var, collated, fs) \<Rightarrow>
        (case alpha_iterations depth metric [0 ..< 10] [] fs of
           Inl e \<Rightarrow> Inl e
         | Inr (alpha_list, fs1) \<Rightarrow>
        (case concat_axis1 alpha_list of
           Inl e \<Rightarrow> Inl e
         | Inr alpha_var \<Rightarrow>
        (case map_var of
           None \<Rightarrow> Inl (NameError ''map_'')
         | Some m \<Rightarrow>
        (case loc_set m (index alpha_var) (mean_column metric depth) (mean_axis1 alpha_var) of
           Inl e \<Rightarrow> Inl e
         | Inr m' \<Rightarrow> Inr (Some m', collated @ [alpha_var], fs1))))))"

fun metric_loop ::
  "string \<Rightarrow> string list \<Rightarrow> cell frame option \<times> real frame list \<times> fs
     \<Rightarrow> error + (cell frame option \<times> real frame list \<times> fs)" where
  "metric_loop depth [] st = Inr st"
| "metric_loop depth (metric # ms) st =
     (case metric_step depth metric st of
        Inl e \<Rightarrow> Inl e
      | Inr st' \<Rightarrow> metric_loop depth ms st')"

text \<open>
  The body of the depth loop. \<open>sample_ids\<close> is the dict from depth to index, an
  association list whose first entry for a key is the current one.
  \<^verbatim>\<open>
  collated = []
  for metric in ['observed_otus', 'faiths_pd', 'shannon']:
      ...
  collated = pd.concat(collated, axis=1)
  collated.to_csv('./03.packaged/%s/collated_alpha.txt' % depth, sep='\t', index_label='#SampleID')
  sample_ids[depth] = collated.index
  map_.dropna().to_csv('./03.packaged/%s/ag_map_with_alpha.txt' % depth,
                       sep='\t', index_label='#SampleID')
  with open('./03.packaged/%s/sample_id.txt' % depth, 'w') as f_:
      f_.write('\n'.join(collated.index))
  \<close>
\<close>

type_synonym alpha_state = "cell frame option \<times> (string \<times> string list) list \<times> fs"

definition depth_step :: "string \<Rightarrow> alpha_state \<Rightarrow> error + alpha_state" where
  "depth_step depth st =
     (case st of (map_var, sample_ids, fs) \<Rightarrow>
        (case metric_loop depth [''observed_otus'', ''faiths_pd'', ''shannon''] (map_var, [], fs) of
           Inl e \<Rightarrow> Inl e
         | Inr (map1, collated_list, fs1) \<Rightarrow>
        (case concat_axis1 collated_list of
           Inl e \<Rightarrow> Inl e
         | Inr collated \<Rightarrow>
        (case write_file fs1 (packaged depth ''collated_alpha.txt'')
                (FloatCsv ''#SampleID'' collated) of
           Inl e \<Rightarrow> Inl e
         | Inr fs2 \<Rightarrow>
        (case map1 of
           None \<Rightarrow> Inl (NameError ''map_'')
         | Some m \<Rightarrow>
        (case write_file fs2 (packaged depth ''ag_map_with_alpha.txt'')
                (MapCsv ''#SampleID'' (dropna m)) of
           Inl e \<Rightarrow> Inl e
         | Inr fs3 \<Rightarrow>
        (case write_file fs3 (packaged depth ''sample_id.txt'')
                (Text (join [CHR 0x0A] (index collated))) of
           Inl e \<Rightarrow> Inl e
         | Inr fs4 \<Rightarrow>
             Inr (Some m, (depth, index collated) # sample_ids, fs4))))))))"

fun depth_loop :: "string list \<Rightarrow> alpha_state \<Rightarrow> error + alpha_state" where
  "depth_loop [] st = Inr st"
| "depth_loop (depth # ds) st =
     (case depth_step depth st of
        Inl e \<Rightarrow> Inl e
      | Inr st' \<Rightarrow> depth_loop ds st')"

definition cell_alpha :: "cell frame option \<Rightarrow> fs \<Rightarrow> error + alpha_state" where
  "cell_alpha map_var fs =
     depth_loop [''1250'', ''2500'', ''5000'', ''10000'', ''50000''] (map_var, [], fs)"

subsection \<open>Subsetting the unrarefied and the collapsed PICRUSt tables\<close>

text \<open>
  Cell 18, for one depth:
  \<^verbatim>\<open>
  sample_path = './03.packaged/%s/sample_id.txt' % depth
  !biom subset-table \
      --input-hdf5-fp ./02.build_package/01.input/deblur_no_blooms_125nt_1250.biom \
      --ids $sample_path --axis sample \
      --output-fp ./03.packaged/$depth/deblur_125nt_no_blooms.biom
  if not os.path.exists('./03.packaged/%s/picrust' % depth):
      os.makedirs('./03.packaged/%s/picrust' % depth)
  for collapse in ['_L1', '_L2', '_L3']:
      picrust_fp_in = picrust_path % collapse
      picrust_fp_out = picrust_out % (depth, collapse)
      !biom subset-table --input-hdf5-fp $picrust_fp_in --output-fp $picrust_fp_out \
          --ids $sample_path --axis 'sample'
  \<close>
\<close>

definition picrust_path :: "string \<Rightarrow> path" where
  "picrust_path collapse =
     [''02.raw_tables'', ''picrust'',
      ''otu_table_no_blooms_125nt_with_tax_min1250_gg99_normed_pred'' @ collapse @ ''.biom'']"

definition picrust_out :: "string \<Rightarrow> string \<Rightarrow> path" where
  "picrust_out depth collapse =
     [''03.packaged'', depth, ''picrust'',
      ''deblur_no_blooms_125nt_min1250_gg99_normed_pred'' @ collapse @ ''.biom'']"

fun collapse_loop :: "string \<Rightarrow> string list \<Rightarrow> fs \<Rightarrow> fs" where
  "collapse_loop depth [] fs = fs"
| "collapse_loop depth (collapse # cs) fs =
     collapse_loop depth cs
       (biom_subset_table fs (picrust_path collapse) (packaged depth ''sample_id.txt'')
          (picrust_out depth collapse))"

definition subset_depth :: "string \<Rightarrow> fs \<Rightarrow> error + fs" where
  "subset_depth depth fs =
     (let sample_path = packaged depth ''sample_id.txt'';
          fs1 = biom_subset_table fs
                  [''02.build_package'', ''01.input'', ''deblur_no_blooms_125nt_1250.biom'']
                  sample_path (packaged depth ''deblur_125nt_no_blooms.biom'')
      in case (if \<not> exists_path fs1 (packaged depth ''picrust'')
               then makedirs fs1 (packaged depth ''picrust'') else Inr fs1) of
           Inl e \<Rightarrow> Inl e
         | Inr fs2 \<Rightarrow> Inr (collapse_loop depth [''_L1'', ''_L2'', ''_L3''] fs2))"

fun subset_loop :: "string list \<Rightarrow> fs \<Rightarrow> error + fs" where
  "subset_loop [] fs = Inr fs"
| "subset_loop (depth # ds) fs =
     (case subset_depth depth fs of Inl e \<Rightarrow> Inl e | Inr fs' \<Rightarrow> subset_loop ds fs')"

definition cell_subset :: "fs \<Rightarrow> error + fs" where
  "cell_subset fs = subset_loop [''1250'', ''2500'', ''5000'', ''10000'', ''50000''] fs"

subsection \<open>The full PICRUSt table\<close>

text \<open>
  Cell 24, for one depth:
  \<^verbatim>\<open>
  id_ = sample_ids[depth]
  picrust_out = './03.packaged/%s/picrust/deblur_no_blooms_125nt_min1250_gg99_normed_pred.biom' % depth
  with h5py.File(fp_in) as f_:
      t_in = biom.Table.from_hdf5(f_, parse_fs=parse_fs)
  t_depth = t_in.filter(id_, axis='sample', inplace=False)
  with h5py.File(picrust_out, 'w') as fp_:
      t_depth.to_hdf5(fp_, 'filtered for %s sequences/sample' % depth, format_fs=format_fs)
  \<close>
  The library's reader and writer, with the parsers and formatters the notebook registers,
  are the parameters \<open>from_hdf5\<close> and \<open>to_hdf5\<close>: what a file holds becomes a table,
  and a table with its \<open>generated_by\<close> note becomes what the file holds. The state of
  the loop is the variable \<open>t_in\<close> and the file system.
\<close>

definition generated_by :: "string \<Rightarrow> string" where
  "generated_by depth = ''filtered for '' @ depth @ '' sequences/sample''"

definition picrust_step ::
  "(content \<Rightarrow> error + table) \<Rightarrow> (table \<Rightarrow> string \<Rightarrow> error + content)
     \<Rightarrow> (string \<times> string list) list \<Rightarrow> string \<Rightarrow> table option \<times> fs
     \<Rightarrow> error + (table option \<times> fs)" where
  "picrust_step from_hdf5 to_hdf5 sample_ids depth st =
     (case st of (t_in, fs) \<Rightarrow>
        (case map_of sample_ids depth of
           None \<Rightarrow> Inl (KeyError depth)
         | Some id_var \<Rightarrow>
        (case map_of fs (picrust_path []) of
           None \<Rightarrow> Inl OSError
         | Some Dir \<Rightarrow> Inl OSError
         | Some (File c) \<Rightarrow>
        (case from_hdf5 c of
           Inl e \<Rightarrow> Inl e
         | Inr t \<Rightarrow>
        (case table_filter id_var False t of (t_in', t_depth) \<Rightarrow>
        (case to_hdf5 t_depth (generated_by depth) of
           Inl e \<Rightarrow> Inl e
         | Inr c' \<Rightarrow>
        (case write_file fs (picrust_out depth []) c' of
           Inl e \<Rightarrow> Inl e
         | Inr fs' \<Rightarrow> Inr (Some t_in', fs'))))))))"

fun picrust_loop ::
  "(content \<Rightarrow> error + table) \<Rightarrow> (table \<Rightarrow> string \<Rightarrow> error + content)
     \<Rightarrow> (string \<times> string list) list \<Rightarrow> string list \<Rightarrow> table option \<times> fs
     \<Rightarrow> error + (table option \<times> fs)" where
  "picrust_loop from_hdf5 to_hdf5 sample_ids [] st = Inr st"
| "picrust_loop from_hdf5 to_hdf5 sample_ids (depth # ds) st =
     (case picrust_step from_hdf5 to_hdf5 sample_ids depth st of
        Inl e \<Rightarrow> Inl e
      | Inr st' \<Rightarrow> picrust_loop from_hdf5 to_hdf5 sample_ids ds st')"

text \<open>\<open>for depth in depths[::-1]\<close>: the loop runs over the depths in reverse.\<close>

definition cell_picrust ::
  "(content \<Rightarrow> error + table) \<Rightarrow> (table \<Rightarrow> string \<Rightarrow> error + content)
     \<Rightarrow> string list \<Rightarrow> (string \<times> string list) list \<Rightarrow> table option \<times> fs
     \<Rightarrow> error + (table option \<times> fs)" where
  "cell_picrust from_hdf5 to_hdf5 depths_var sample_ids st =
     picrust_loop from_hdf5 to_hdf5 sample_ids (rev depths_var) st"

subsection \<open>The distance matrices\<close>

text \<open>
  Cell 26, for one depth and one metric:
  \<^verbatim>\<open>
  old_filepath = './02.build_package/04.beta/%s/%s.qza' % (depth, metric)
  new_path = './03.packaged/%s/distance/%s.txt'
  !qiime tools extract $old_filepath --output-dir $temp_dir
  uuid_dir = os.path.join(temp_dir, os.listdir(temp_dir)[0])
  full_fp = os.path.join(uuid_dir, 'data/distance-matrix.tsv')
  shutil.move(full_fp, new_path % (depth, metric))
  !rm -r $uuid_dir
  \<close>
\<close>

definition beta_temp_dir :: "string \<Rightarrow> path" where
  "beta_temp_dir depth = [''02.build_package'', ''04.beta'', depth, ''temp_dir'']"

definition beta_artifact :: "string \<Rightarrow> string \<Rightarrow> path" where
  "beta_artifact depth metric = [''02.build_package'', ''04.beta'', depth, metric @ ''.qza'']"

definition distance_dir :: "string \<Rightarrow> path" where
  "distance_dir depth = [''03.packaged'', depth, ''distance'']"

definition new_path :: "string \<Rightarrow> string \<Rightarrow> path" where
  "new_path depth metric = [''03.packaged'', depth, ''distance'', metric @ ''.txt'']"

definition beta_metric :: "string \<Rightarrow> string \<Rightarrow> fs \<Rightarrow> error + fs" where
  "beta_metric depth metric fs =
     (let temp_dir = beta_temp_dir depth;
          fs1 = qiime_tools_extract fs (beta_artifact depth metric) temp_dir
      in case listdir fs1 temp_dir of
           Inl e \<Rightarrow> Inl e
         | Inr names \<Rightarrow>
             (case names of
                [] \<Rightarrow> Inl IndexError
              | n # ns \<Rightarrow>
                  (case move fs1 (temp_dir @ [n] @ [''data'', ''distance-matrix.tsv''])
                          (new_path depth metric) of
                     Inl e \<Rightarrow> Inl e
                   | Inr fs2 \<Rightarrow> Inr (rm_r fs2 (temp_dir @ [n])))))"

fun beta_metric_loop :: "string \<Rightarrow> string list \<Rightarrow> fs \<Rightarrow> error + fs" where
  "beta_metric_loop depth [] fs = Inr fs"
| "beta_metric_loop depth (metric # ms) fs =
     (case beta_metric depth metric fs of
        Inl e \<Rightarrow> Inl e
      | Inr fs' \<Rightarrow> beta_metric_loop depth ms fs')"

text \<open>
  The body of the depth loop:
  \<^verbatim>\<open>
  temp_dir = './02.build_package/04.beta/%s/temp_dir/' % depth
  if not os.path.exists(temp_dir):
      os.makedirs(temp_dir)
  if not os.path.exists('./03.packaged/%s/distance' % depth):
      os.makedirs('./03.packaged/%s/distance' % depth)
  for metric in ['bray_curtis', 'unweighted', 'weighted-normalized', 'weighted-unnormalized']:
      ...
  os.removedirs(temp_dir)
  \<close>
\<close>

definition beta_metrics :: "string list" where
  "beta_metrics = [''bray_curtis'', ''unweighted'', ''weighted-normalized'', ''weighted-unnormalized'']"

definition ensure_dir :: "fs \<Rightarrow> path \<Rightarrow> error + fs" where
  "ensure_dir fs p = (if \<not> exists_path fs p then makedirs fs p else Inr fs)"

definition beta_depth :: "string \<Rightarrow> fs \<Rightarrow> error + fs" where
  "beta_depth depth fs =
     (case ensure_dir fs (beta_temp_dir depth) of
        Inl e \<Rightarrow> Inl e
      | Inr fs1 \<Rightarrow>
     (case ensure_dir fs1 (distance_dir depth) of
        Inl e \<Rightarrow> Inl e
      | Inr fs2 \<Rightarrow>
     (case beta_metric_loop depth beta_metrics fs2 of
        Inl e \<Rightarrow> Inl e
      | Inr fs3 \<Rightarrow> removedirs fs3 (beta_temp_dir depth))))"

fun beta_loop :: "string list \<Rightarrow> fs \<Rightarrow> error + fs" where
  "beta_loop [] fs = Inr fs"
| "beta_loop (depth # ds) fs =
     (case beta_depth depth fs of Inl e \<Rightarrow> Inl e | Inr fs' \<Rightarrow> beta_loop ds fs')"

definition cell_beta :: "string list \<Rightarrow> fs \<Rightarrow> error + fs" where
  "cell_beta depths_var fs = beta_loop depths_var fs"

section \<open>Example data\<close>

definition pathways :: pyval where
  "pathways = PList [PStr (ascii ''Metabolism''), PStr (ascii ''Energy Metabolism'')]"

text \<open>
  A list with one string of two code points, a high surrogate and a low one (the
  UTF-16 form of U+1F600).
\<close>

definition surrogates :: pyval where
  "surrogates = PList [PStr [0xD83D, 0xDE00]]"

definition rarefied_table :: table where
  "rarefied_table =
     \<lparr>obs_ids = [''f1'', ''f2'', ''f3''], samp_ids = [''s1'', ''s2''],
      obs_md = None, matrix = [[1250, 0], [0, 1000], [0, 250]]\<rparr>"

definition base_table :: table where
  "base_table =
     \<lparr>obs_ids = [''f1'', ''f2'', ''f3''], samp_ids = [''s1'', ''s2''],
      obs_md = Some
        [[(''taxonomy'', PList [PStr (ascii ''k__Bacteria''), PStr (ascii ''p__Firmicutes'')])],
         [(''taxonomy'', PList [PStr (ascii ''k__Bacteria''), PStr (ascii ''p__Bacteroidetes'')])],
         [(''taxonomy'', PList [PStr (ascii ''k__Archaea'')])]],
      matrix = [[2000, 10], [5, 1500], [0, 300]]\<rparr>"

definition export_fs :: fs where
  "export_fs =
     [([''02.build_package''], Dir),
      ([''02.build_package'', ''02.rarefied''], Dir),
      ([''02.build_package'', ''02.rarefied'', ''1250''], Dir),
      ([''02.build_package'', ''02.rarefied'', ''1250'', ''deblur_125nt_0.qza''],
         File (Qza ''5b1c'' [([''data'', ''feature-table.biom''], Biom rarefied_table)])),
      ([''03.packaged''], Dir),
      ([''03.packaged'', ''1250''], Dir),
      ([''03.packaged'', ''1250'', ''deblur_125nt_no_blooms.biom''], File (Biom base_table))]"

definition ready_kernel :: kernel where
  "ready_kernel =
     \<lparr>modules = [''os'', ''shutil'', ''biom'', ''h5py'', ''np'', ''pd''],
      depths = Some [''1250'', ''2500'', ''5000'', ''10000'', ''50000''],
      alpha_metrics = Some [''observed_otus'', ''faiths_pd'', ''shannon''],
      load_table = None, raw_t = None, taxa_lookup = None, table_var = None, f_var = None\<rparr>"

definition packaged_dirs :: fs where
  "packaged_dirs =
     [([''03.packaged'', ''50000''], Dir), ([''03.packaged'', ''10000''], Dir),
      ([''03.packaged'', ''5000''], Dir), ([''03.packaged'', ''2500''], Dir),
      ([''03.packaged'', ''1250''], Dir), ([''03.packaged''], Dir)]"

text \<open>
  For the full PICRUSt table: a table with three samples, a reader and a writer that
  take the table as the file holds it, and the sample identifiers of two depths.
\<close>

definition picrust_table :: table where
  "picrust_table =
     \<lparr>obs_ids = [''K00001'', ''K00002''], samp_ids = [''s1'', ''s2'', ''s3''],
      obs_md = None, matrix = [[10, 20, 30], [1, 2, 3]]\<rparr>"

definition read_stored :: "content \<Rightarrow> error + table" where
  "read_stored c = (case c of Biom t \<Rightarrow> Inr t | _ \<Rightarrow> Inl ValueError)"

definition write_stored :: "table \<Rightarrow> string \<Rightarrow> error + content" where
  "write_stored t note = Inr (Biom t)"

definition picrust_fs :: fs where
  "picrust_fs =
     [([''02.raw_tables''], Dir),
      ([''02.raw_tables'', ''picrust''], Dir),
      (picrust_path [], File (Biom picrust_table)),
      ([''03.packaged''], Dir),
      ([''03.packaged'', ''1250''], Dir),
      ([''03.packaged'', ''1250'', ''picrust''], Dir),
      ([''03.packaged'', ''2500''], Dir),
      ([''03.packaged'', ''2500'', ''picrust''], Dir)]"

definition two_depths :: "(string \<times> string list) list" where
  "two_depths = [(''2500'', [''s2'']), (''1250'', [''s1'', ''s2''])]"

text \<open>
  For the alpha diversity at depth 1250: ten artifacts for each of the three metrics,
  each with the values of the samples \<open>s1\<close> and \<open>s2\<close>; the unrarefied table with
  one more sample; and sample metadata with one column, in which \<open>s1\<close> has no value.
\<close>

definition demo_alpha :: "string \<Rightarrow> nat \<Rightarrow> alpha_tsv" where
  "demo_alpha metric i = \<lparr>value_header = metric, entries = [(''s1'', Some 10), (''s2'', Some (real i))]\<rparr>"

definition alpha_qza :: "string \<Rightarrow> nat \<Rightarrow> node" where
  "alpha_qza metric i =
     File (Qza ''4f0c'' [([''data'', ''alpha-diversity.tsv''], AlphaTsv (demo_alpha metric i))])"

definition alpha_qzas :: "string \<Rightarrow> fs" where
  "alpha_qzas depth =
     map (\<lambda>(metric, i). (alpha_artifact depth metric i, alpha_qza metric i))
       (List.product [''observed_otus'', ''faiths_pd'', ''shannon''] [0 ..< 10])"

definition unrarefied_table :: table where
  "unrarefied_table =
     \<lparr>obs_ids = [''f1'', ''f2''], samp_ids = [''s1'', ''s2'', ''s3''],
      obs_md = None, matrix = [[2000, 10, 3], [5, 1500, 40]]\<rparr>"

definition unrarefied_path :: path where
  "unrarefied_path = [''02.build_package'', ''01.input'', ''deblur_no_blooms_125nt_1250.biom'']"

definition demo_dirs :: fs where
  "demo_dirs =
     [([''02.build_package''], Dir),
      ([''02.build_package'', ''01.input''], Dir),
      ([''02.build_package'', ''01.input'', ''deblur_no_blooms_125nt_1250.biom''],
         File (Biom unrarefied_table)),
      ([''02.build_package'', ''03.alpha''], Dir),
      ([''02.build_package'', ''03.alpha'', ''1250''], Dir),
      ([''03.packaged''], Dir),
      ([''03.packaged'', ''1250''], Dir)]"

definition demo_fs :: fs where
  "demo_fs = demo_dirs @ alpha_qzas ''1250''"

definition demo_map :: "cell frame" where
  "demo_map =
     \<lparr>columns = [''AGE_YEARS''],
      rows = [(''s1'', [None]), (''s2'', [Some (S ''34'')]), (''s3'', [Some (S ''51'')])]\<rparr>"

text \<open>
  What the proofs keep track of while the artifacts are exported: the artifacts are in
  place, no file sits where an export directory is needed, and the exported file is not
  a directory. \<open>outside_alpha\<close> holds of the paths that are neither above nor below
  the export directories.
\<close>

definition demo_inv :: "fs \<Rightarrow> bool" where
  "demo_inv fs \<longleftrightarrow>
     (\<forall>metric\<in>set [''observed_otus'', ''faiths_pd'', ''shannon'']. \<forall>i<10.
        map_of fs (alpha_artifact ''1250'' metric i) = Some (alpha_qza metric i))
     \<and> (\<forall>metric\<in>set [''observed_otus'', ''faiths_pd'', ''shannon'']. \<forall>q c.
          q \<noteq> [] \<and> inside q (alpha_dir ''1250'' metric) \<longrightarrow> map_of fs q \<noteq> Some (File c))
     \<and> (\<forall>metric\<in>set [''observed_otus'', ''faiths_pd'', ''shannon''].
          map_of fs (alpha_dir ''1250'' metric @ [''alpha-diversity.tsv'']) \<noteq> Some Dir)"

definition outside_alpha :: "path \<Rightarrow> bool" where
  "outside_alpha q = (q \<noteq> [] \<and> q \<noteq> [''02.build_package''] \<and> take 2 q \<noteq> [''02.build_package'', ''03.alpha''])"

text \<open>
  The frames of the run on these files: one iteration, the ten iterations of a metric
  side by side, the metadata after the metrics \<open>ms\<close>, and the collated table.
\<close>

definition demo_frame :: "string \<Rightarrow> nat \<Rightarrow> real frame" where
  "demo_frame metric i =
     \<lparr>columns = [alpha_column metric ''1250'' i], rows = [(''s1'', [Some 10]), (''s2'', [Some (real i)])]\<rparr>"

definition demo_alpha_var :: "string \<Rightarrow> real frame" where
  "demo_alpha_var metric =
     \<lparr>columns = map (alpha_column metric ''1250'') [0 ..< 10],
      rows = [(''s1'', map (\<lambda>i. Some 10) [0 ..< 10]), (''s2'', map (\<lambda>i. Some (real i)) [0 ..< 10])]\<rparr>"

definition demo_map_after :: "string list \<Rightarrow> cell frame" where
  "demo_map_after ms =
     \<lparr>columns = ''AGE_YEARS'' # map (\<lambda>m. mean_column m ''1250'') ms,
      rows = [(''s1'', None # replicate (length ms) (Some (F 10))),
              (''s2'', Some (S ''34'') # replicate (length ms) (Some (F (9 / 2)))),
              (''s3'', Some (S ''51'') # replicate (length ms) None)]\<rparr>"

definition demo_collated :: "real frame" where
  "demo_collated =
     \<lparr>columns = concat (map (\<lambda>m. map (alpha_column m ''1250'') [0 ..< 10])
                         [''observed_otus'', ''faiths_pd'', ''shannon'']),
      rows = [(''s1'', concat (replicate 3 (map (\<lambda>i. Some 10) [0 ..< 10]))),
              (''s2'', concat (replicate 3 (map (\<lambda>i. Some (real i)) [0 ..< 10])))]\<rparr>"

section \<open>Decoding what the encoder wrote\<close>

lemma ascii_simps [simp]:
  "ascii [] = []" "ascii (c # cs) = of_char c # ascii cs"
  by (simp_all add: ascii_def)

lemma hexval_hexdigit: "d < 16 \<Longrightarrow> hexval (hexdigit d) = Some d"
  by (auto simp: hexval_def hexdigit_def)

lemma hex4_value:
  assumes "n < 65536"
  shows "((n div 4096 mod 16 * 16 + n div 256 mod 16) * 16 + n div 16 mod 16) * 16 + n mod 16 = (n::nat)"
proof -
  define q1 where "q1 = n div 16"
  define q2 where "q2 = q1 div 16"
  define q3 where "q3 = q2 div 16"
  have d2: "n div 256 = q2" unfolding q2_def q1_def by (simp add: div_mult2_eq [symmetric])
  have d3: "n div 4096 = q3" unfolding q3_def q2_def q1_def by (simp add: div_mult2_eq [symmetric])
  have "q3 < 16" using assms unfolding d3 [symmetric] by simp
  then have m3: "q3 mod 16 = q3" by simp
  have e1: "q1 * 16 + n mod 16 = n" unfolding q1_def by simp
  have e2: "q2 * 16 + q1 mod 16 = q1" unfolding q2_def by simp
  have e3: "q3 * 16 + q2 mod 16 = q2" unfolding q3_def by simp
  have "((q3 mod 16 * 16 + q2 mod 16) * 16 + q1 mod 16) * 16 + n mod 16 = n"
    unfolding m3 e3 e2 e1 ..
  then show ?thesis unfolding d2 d3 q1_def [symmetric] .
qed

lemma decode_hex4:
  assumes "n < 65536"
  shows "decode_uXXXX (hex4 n) = Some n"
proof -
  have "decode_uXXXX (hex4 n)
          = Some (((n div 4096 mod 16 * 16 + n div 256 mod 16) * 16 + n div 16 mod 16) * 16 + n mod 16)"
    by (simp add: decode_uXXXX_def hex4_def hexval_hexdigit)
  then show ?thesis by (simp only: hex4_value [OF assms])
qed

lemma length_hex4 [simp]: "length (hex4 n) = 4"
  by (simp add: hex4_def)

lemma join_surrogates:
  assumes "0x10000 \<le> c" and "c < 0x110000"
  shows "0x10000 + ((c - 0x10000) div 1024 mod 1024 * 1024 + (c - 0x10000) mod 1024) = (c::nat)"
proof -
  define v where "v = c - 0x10000"
  have c: "c = 0x10000 + v" using assms(1) by (simp add: v_def)
  have "v < 1024 * 1024" using assms(2) by (simp add: v_def)
  then have "v div 1024 < 1024" by (simp add: less_mult_imp_div_less)
  then have m: "v div 1024 mod 1024 = v div 1024" by simp
  have "0x10000 + (v div 1024 mod 1024 * 1024 + v mod 1024) = 0x10000 + v"
    unfolding m by simp
  then show ?thesis unfolding v_def [symmetric] c [symmetric] .
qed

lemma low_surrogate_ahead_quote: "low_surrogate_ahead (0x22 # r) = Inr None"
  by (simp add: low_surrogate_ahead_def)

lemma encode_cases:
  obtains (esc) "c = 0x22 \<or> c = 0x5C \<or> c = 0x0A \<or> c = 0x0D \<or> c = 0x09 \<or> c = 0x08 \<or> c = 0x0C"
  | (printable) "py_encode_char c = [c]" "c \<noteq> 0x22" "c \<noteq> 0x5C" "0x20 \<le> c"
  | (bmp) "py_encode_char c = [0x5C, 0x75] @ hex4 c" "c < 0x10000"
  | (astral) "py_encode_char c = [0x5C, 0x75] @ hex4 (0xD800 + (c - 0x10000) div 1024 mod 1024)
         @ [0x5C, 0x75] @ hex4 (0xDC00 + (c - 0x10000) mod 1024)" "0x10000 \<le> c"
proof (cases "c = 0x22 \<or> c = 0x5C \<or> c = 0x0A \<or> c = 0x0D \<or> c = 0x09 \<or> c = 0x08 \<or> c = 0x0C")
  case True
  then show ?thesis by (rule esc)
next
  case ne: False
  show ?thesis
  proof (cases "0x20 \<le> c \<and> c \<le> 0x7E")
    case True
    then show ?thesis using ne by (intro printable) (simp_all add: py_encode_char_def)
  next
    case np: False
    show ?thesis
    proof (cases "c < 0x10000")
      case True
      then show ?thesis using ne np by (intro bmp) (simp_all add: py_encode_char_def)
    next
      case False
      then show ?thesis using ne np by (intro astral) (simp_all add: py_encode_char_def)
    qed
  qed
qed

lemma high_of_astral:
  "0xD800 + (c - 0x10000) div 1024 mod 1024 < 65536"
  "high_surrogate (0xD800 + (c - 0x10000) div 1024 mod 1024)"
  "\<not> low_surrogate (0xD800 + (c - 0x10000) div 1024 mod 1024)"
proof -
  have "(c - 0x10000) div 1024 mod 1024 < 1024" by simp
  then show "0xD800 + (c - 0x10000) div 1024 mod 1024 < 65536"
    "high_surrogate (0xD800 + (c - 0x10000) div 1024 mod 1024)"
    "\<not> low_surrogate (0xD800 + (c - 0x10000) div 1024 mod 1024)"
    by (simp_all add: low_surrogate_def high_surrogate_def)
qed

lemma low_of_astral:
  "0xDC00 + (c - 0x10000) mod 1024 < 65536"
  "low_surrogate (0xDC00 + (c - 0x10000) mod 1024)"
proof -
  have "(c - 0x10000) mod 1024 < 1024" by simp
  then show "0xDC00 + (c - 0x10000) mod 1024 < 65536"
    "low_surrogate (0xDC00 + (c - 0x10000) mod 1024)"
    by (simp_all add: low_surrogate_def)
qed

lemma low_surrogate_ahead_encode:
  assumes "\<not> low_surrogate c"
  shows "low_surrogate_ahead (py_encode_char c @ r) = Inr None"
proof (rule encode_cases [of c])
  assume "c = 0x22 \<or> c = 0x5C \<or> c = 0x0A \<or> c = 0x0D \<or> c = 0x09 \<or> c = 0x08 \<or> c = 0x0C"
  then show ?thesis
    by (elim disjE) (simp_all add: py_encode_char_def low_surrogate_ahead_def)
next
  assume "py_encode_char c = [c]" "c \<noteq> 0x5C"
  then show ?thesis by (simp add: low_surrogate_ahead_def)
next
  assume "py_encode_char c = [0x5C, 0x75] @ hex4 c" "c < 0x10000"
  then show ?thesis using assms by (simp add: low_surrogate_ahead_def decode_hex4)
next
  assume "py_encode_char c = [0x5C, 0x75] @ hex4 (0xD800 + (c - 0x10000) div 1024 mod 1024)
         @ [0x5C, 0x75] @ hex4 (0xDC00 + (c - 0x10000) mod 1024)"
  then show ?thesis by (simp add: low_surrogate_ahead_def decode_hex4 high_of_astral)
qed

lemma scanstring_encode_char:
  assumes "c < 0x110000" and "high_surrogate c \<longrightarrow> low_surrogate_ahead r = Inr None"
  shows "scanstring acc (py_encode_char c @ r) = scanstring (acc @ [c]) r"
proof (rule encode_cases [of c])
  assume "c = 0x22 \<or> c = 0x5C \<or> c = 0x0A \<or> c = 0x0D \<or> c = 0x09 \<or> c = 0x08 \<or> c = 0x0C"
  then show ?thesis
    by (elim disjE) (simp_all add: py_encode_char_def BACKSLASH_def)
next
  assume "py_encode_char c = [c]" "c \<noteq> 0x22" "c \<noteq> 0x5C" "0x20 \<le> c"
  then show ?thesis by simp
next
  assume "py_encode_char c = [0x5C, 0x75] @ hex4 c" "c < 0x10000"
  then show ?thesis using assms(2) by (simp add: decode_hex4)
next
  assume enc: "py_encode_char c = [0x5C, 0x75] @ hex4 (0xD800 + (c - 0x10000) div 1024 mod 1024)
         @ [0x5C, 0x75] @ hex4 (0xDC00 + (c - 0x10000) mod 1024)" and big: "0x10000 \<le> c"
  have "low_surrogate_ahead ([0x5C, 0x75] @ hex4 (0xDC00 + (c - 0x10000) mod 1024) @ r)
          = Inr (Some (0xDC00 + (c - 0x10000) mod 1024))"
    by (simp add: low_surrogate_ahead_def decode_hex4 low_of_astral)
  then show ?thesis using enc
    by (simp add: decode_hex4 high_of_astral join_surrogates [OF big assms(1)])
qed

lemma scanstring_encode:
  assumes "is_str s" and "pair_free s"
  shows "scanstring acc (concat (map py_encode_char s) @ 0x22 # rest) = Inr (acc @ s, rest)"
  using assms
proof (induction s arbitrary: acc)
  case Nil
  then show ?case by simp
next
  case (Cons c s)
  have ahead: "high_surrogate c \<longrightarrow> low_surrogate_ahead (concat (map py_encode_char s) @ 0x22 # rest) = Inr None"
  proof (cases s)
    case Nil
    then show ?thesis by (simp add: low_surrogate_ahead_quote)
  next
    case (Cons d t)
    then show ?thesis using Cons.prems(2) by (auto simp: low_surrogate_ahead_encode)
  qed
  have "c < 0x110000" using Cons.prems(1) by (simp add: is_str_def)
  then have "scanstring acc (py_encode_char c @ concat (map py_encode_char s) @ 0x22 # rest)
          = scanstring (acc @ [c]) (concat (map py_encode_char s) @ 0x22 # rest)"
    using ahead by (rule scanstring_encode_char)
  moreover have "is_str s" using Cons.prems(1) by (simp add: is_str_def)
  moreover have "pair_free s" using Cons.prems(2) by (cases s) simp_all
  ultimately show ?case using Cons.IH [of "acc @ [c]"] by simp
qed

lemma dumps_hd: "\<exists>c r. dumps v = c # r \<and> \<not> is_ws c \<and> c \<noteq> 0x5D \<and> c \<noteq> 0x2C"
  by (cases v) (simp_all add: py_encode_basestring_ascii_def is_ws_def)

lemma skip_ws_dumps: "skip_ws (dumps v @ r) = dumps v @ r"
  using dumps_hd [of v] by (auto simp: skip_ws_def)

lemma join_hd:
  assumes "xs \<noteq> []"
  shows "\<exists>c r. join sep (map dumps xs) = c # r \<and> \<not> is_ws c \<and> c \<noteq> 0x5D"
proof (cases xs)
  case Nil then show ?thesis using assms by simp
next
  case (Cons x ys)
  obtain c r where "dumps x = c # r" "\<not> is_ws c" "c \<noteq> 0x5D" using dumps_hd [of x] by blast
  then show ?thesis using Cons by (cases ys) auto
qed

lemma scan_array_dumps:
  assumes "xs \<noteq> []"
    and "\<And>x m rest. x \<in> set xs \<Longrightarrow> length (dumps x) \<le> m \<Longrightarrow> scan_once m (dumps x @ rest) = Inr (x, rest)"
    and "length (join (ascii '', '') (map dumps xs)) < n"
  shows "scan_array n acc (join (ascii '', '') (map dumps xs) @ 0x5D # rest) = Inr (PList (acc @ xs), rest)"
  using assms
proof (induction xs arbitrary: n acc)
  case Nil
  then show ?case by simp
next
  case (Cons x ys)
  from Cons.prems(3) obtain k where n: "n = Suc k" by (cases n) auto
  show ?case
  proof (cases ys)
    case Nil
    have "length (dumps x) \<le> k" using Cons.prems(3) n Nil by simp
    then have "scan_once k (dumps x @ 0x5D # rest) = Inr (x, 0x5D # rest)"
      using Cons.prems(2) by simp
    then show ?thesis using Nil n by (simp add: skip_ws_def is_ws_def)
  next
    case (Cons y zs)
    let ?tl = "join (ascii '', '') (map dumps ys)"
    have len: "length (dumps x) \<le> k" "length ?tl < k"
      using Cons.prems(3) n Cons by simp_all
    have one: "scan_once k (dumps x @ ascii '', '' @ ?tl @ 0x5D # rest) = Inr (x, ascii '', '' @ ?tl @ 0x5D # rest)"
      using Cons.prems(2) len(1) by simp
    have ih: "scan_array k (acc @ [x]) (?tl @ 0x5D # rest) = Inr (PList ((acc @ [x]) @ ys), rest)"
      using Cons.IH [of k "acc @ [x]"] Cons.prems(2) len(2) Cons by simp
    obtain c r where hd: "?tl = c # r" "\<not> is_ws c" using join_hd [of ys] Cons by blast
    have sk: "skip_ws (0x20 # ?tl @ 0x5D # rest) = ?tl @ 0x5D # rest"
      using hd by (simp add: skip_ws_def is_ws_def)
    show ?thesis using Cons n one ih sk by (simp add: skip_ws_def is_ws_def)
  qed
qed

lemma match_lit_self: "match_lit lit (lit @ r) = Some r"
  by (simp add: match_lit_def)

lemma scan_once_dumps:
  "no_surrogate_pair v \<Longrightarrow> length (dumps v) \<le> n \<Longrightarrow> scan_once n (dumps v @ rest) = Inr (v, rest)"
proof (induction v arbitrary: n rest)
  case PNone
  then obtain k where "n = Suc k" by (cases n) auto
  then show ?case using match_lit_self [of "ascii ''ull''" rest] by simp
next
  case (PBool b)
  then obtain k where "n = Suc k" by (cases n) (auto split: if_splits)
  then show ?case using match_lit_self [of "ascii ''rue''" rest] match_lit_self [of "ascii ''alse''" rest] by simp
next
  case (PStr s)
  then obtain k where "n = Suc k" by (cases n) (auto simp: py_encode_basestring_ascii_def)
  then show ?case using scanstring_encode [of s "[]" rest] PStr.prems(1)
    by (simp add: py_encode_basestring_ascii_def)
next
  case (PList xs)
  then obtain k where n: "n = Suc k" by (cases n) auto
  show ?case
  proof (cases xs)
    case Nil
    then show ?thesis using n by (simp add: skip_ws_def is_ws_def)
  next
    case (Cons y ys)
    let ?body = "join (ascii '', '') (map dumps xs)"
    obtain c r where hd: "?body = c # r" "\<not> is_ws c" "c \<noteq> 0x5D"
      using join_hd [of xs] Cons by blast
    have len: "length ?body < k" using PList.prems(2) n by simp
    have ok: "\<And>x. x \<in> set xs \<Longrightarrow> no_surrogate_pair x"
      using PList.prems(1) by (simp add: list_all_iff)
    have arr: "scan_array k [] (?body @ 0x5D # rest) = Inr (PList ([] @ xs), rest)"
    proof (rule scan_array_dumps)
      show "xs \<noteq> []" using Cons by simp
      show "length ?body < k" by (rule len)
      show "scan_once m (dumps x @ rest') = Inr (x, rest')"
        if "x \<in> set xs" "length (dumps x) \<le> m" for x m rest'
        using that PList.IH [of x m rest'] ok by simp
    qed
    have sk: "skip_ws (?body @ 0x5D # rest) = ?body @ 0x5D # rest"
      using hd by (simp add: skip_ws_def)
    show ?thesis using n arr sk hd by simp
  qed
qed

lemma loads_str_dumps: "no_surrogate_pair v \<Longrightarrow> loads_str (dumps v) = Inr v"
  using scan_once_dumps [of v "2 * length (dumps v) + 2" "[]"] skip_ws_dumps [of v "[]"]
  by (simp add: loads_str_def skip_ws_def)

lemma loads_dumps: "no_surrogate_pair v \<Longrightarrow> loads (PStr (dumps v)) = Inr v"
  by (simp add: loads_str_dumps)

lemma hexdigit_less: "d < 16 \<Longrightarrow> hexdigit d < 128"
  by (simp add: hexdigit_def)

lemma hexdigit_ascii: "hexdigit (d mod 16) < 128"
  by (rule hexdigit_less) simp

lemma hex4_ascii: "\<forall>c\<in>set (hex4 n). c < 128"
  by (simp add: hex4_def hexdigit_ascii)

lemma py_encode_char_ascii: "\<forall>x\<in>set (py_encode_char c). x < 128"
proof (rule encode_cases [of c])
  assume "c = 0x22 \<or> c = 0x5C \<or> c = 0x0A \<or> c = 0x0D \<or> c = 0x09 \<or> c = 0x08 \<or> c = 0x0C"
  then show ?thesis by (elim disjE) (simp_all add: py_encode_char_def)
next
  assume "py_encode_char c = [c]" "c \<noteq> 0x22" "c \<noteq> 0x5C" "0x20 \<le> c"
  show ?thesis
  proof (cases "c \<le> 0x7E")
    case True
    then show ?thesis using \<open>py_encode_char c = [c]\<close> by simp
  next
    case False
    then have "py_encode_char c \<noteq> [c]" by (simp add: py_encode_char_def hex4_def)
    then show ?thesis using \<open>py_encode_char c = [c]\<close> by simp
  qed
next
  assume "py_encode_char c = [0x5C, 0x75] @ hex4 c" "c < 0x10000"
  then show ?thesis using hex4_ascii [of c] by simp
next
  assume "py_encode_char c = [0x5C, 0x75] @ hex4 (0xD800 + (c - 0x10000) div 1024 mod 1024)
         @ [0x5C, 0x75] @ hex4 (0xDC00 + (c - 0x10000) mod 1024)"
  then show ?thesis
    using hex4_ascii [of "0xD800 + (c - 0x10000) div 1024 mod 1024"]
      hex4_ascii [of "0xDC00 + (c - 0x10000) mod 1024"] by auto
qed

lemma join_ascii:
  "\<forall>c\<in>set sep. c < 128 \<Longrightarrow> \<forall>x\<in>set xs. \<forall>c\<in>set x. c < 128 \<Longrightarrow> \<forall>c\<in>set (join sep xs). c < (128::nat)"
  by (induction sep xs rule: join.induct) auto

lemma dumps_ascii: "\<forall>c\<in>set (dumps v). c < 128"
proof (induction v)
  case (PStr s)
  show ?case using py_encode_char_ascii by (auto simp: py_encode_basestring_ascii_def)
next
  case (PList xs)
  have "\<forall>c\<in>set (join (ascii '', '') (map dumps xs)). c < 128"
    by (rule join_ascii) (use PList.IH in auto)
  then show ?case by auto
qed simp_all

lemma parser_loop_all:
  "list_all2 (\<lambda>arg v. \<exists>a0. getitem0 arg = Inr a0 \<and> loads a0 = Inr v) args vs
     \<Longrightarrow> parser_loop acc args = Inr (acc @ vs)"
  by (induction args vs arbitrary: acc rule: list_all2_induct) auto

lemma is_str_ascii: "is_str (ascii s)"
  unfolding is_str_def ascii_def list_all_iff
proof
  fix c :: nat assume "c \<in> set (map of_char s)"
  then obtain x :: char where "c = of_char x" by auto
  moreover have "(of_char x :: nat) < 256" by (rule nat_of_char_less_256)
  ultimately show "c < 0x110000" by linarith
qed

lemma pair_free_ascii_aux: "\<forall>c\<in>set s. \<not> high_surrogate c \<Longrightarrow> pair_free s"
  by (induction s rule: pair_free.induct) auto

lemma pair_free_ascii: "pair_free (ascii s)"
proof (rule pair_free_ascii_aux, rule ballI)
  fix c :: nat assume "c \<in> set (ascii s)"
  then obtain x :: char where "c = of_char x" by (auto simp: ascii_def)
  moreover have "(of_char x :: nat) < 256" by (rule nat_of_char_less_256)
  ultimately show "\<not> high_surrogate c" unfolding high_surrogate_def by linarith
qed

lemma no_surrogate_pair_ascii [simp]: "no_surrogate_pair (PStr (ascii s))"
  by (simp add: is_str_ascii pair_free_ascii)

section \<open>The parser and the formatter\<close>

text \<open>
  Claim C9. Called with no argument, \<open>picrust_parser\<close> returns \<open>None\<close> and not an
  empty list. Called with one or more arguments, each with a first element that is JSON
  text, it returns the list of the decoded first elements, in the order of the
  arguments.
\<close>

theorem picrust_parser_result:
  "picrust_parser [] = Inr PNone \<and>
   (args \<noteq> [] \<longrightarrow>
    list_all2 (\<lambda>arg v. \<exists>a0. getitem0 arg = Inr a0 \<and> loads a0 = Inr v) args vs \<longrightarrow>
    picrust_parser args = Inr (PList vs))"
proof (intro conjI impI)
  show "picrust_parser [] = Inr PNone" by (simp add: picrust_parser_def)
next
  assume ne: "args \<noteq> []"
    and all: "list_all2 (\<lambda>arg v. \<exists>a0. getitem0 arg = Inr a0 \<and> loads a0 = Inr v) args vs"
  have "length args = length vs" using all by (rule list_all2_lengthD)
  then have "vs \<noteq> []" using ne by auto
  then show "picrust_parser args = Inr (PList vs)"
    using parser_loop_all [OF all, of "[]"] by (simp add: picrust_parser_def)
qed

theorem picrust_parser_result_witness:
  "picrust_parser [] = Inr PNone \<and>
   [PList [PStr (dumps (PList [PStr (ascii ''K01362''), PStr (ascii ''K02249'')]))], PList [PStr (dumps (PList []))]] \<noteq> [] \<and>
   picrust_parser [PList [PStr (dumps (PList [PStr (ascii ''K01362''), PStr (ascii ''K02249'')]))], PList [PStr (dumps (PList []))]]
     = Inr (PList [PList [PStr (ascii ''K01362''), PStr (ascii ''K02249'')], PList []])"
  using picrust_parser_result
    [of "[PList [PStr (dumps (PList [PStr (ascii ''K01362''), PStr (ascii ''K02249'')]))], PList [PStr (dumps (PList []))]]"
        "[PList [PStr (ascii ''K01362''), PStr (ascii ''K02249'')], PList []]"]
    loads_dumps [of "PList [PStr (ascii ''K01362''), PStr (ascii ''K02249'')]"] loads_dumps [of "PList []"]
  by (simp add: is_str_ascii pair_free_ascii del: ascii_simps dumps.simps)

lemma new_md_of_all:
  "\<forall>m\<in>set md. m header \<noteq> None \<Longrightarrow>
   new_md_of header md = Inr (map (\<lambda>m. [header \<mapsto> PList [PStr (dumps (the (m header)))]]) md)"
  by (induction md) auto

lemma encode_utf8_ok_dumps: "encode_utf8_ok (dumps v)"
  unfolding encode_utf8_ok_def list_all_iff
proof
  fix c assume "c \<in> set (dumps v)"
  then have "c < 128" using dumps_ascii by blast
  then show "c < 0xD800 \<or> 0xDFFF < c" by simp
qed

lemma vlen_checks_new_md:
  "vlen_checks header (map (\<lambda>m. [header \<mapsto> PList [PStr (dumps (the (m header)))]]) md)
     = Inr (replicate (length md) True, replicate (length md) 1)"
  by (induction md) auto

lemma vlen_rows_new_md:
  "vlen_rows header (map (\<lambda>m. [header \<mapsto> PList [PStr (dumps (the (m header)))]]) md)
     = Inr (map (\<lambda>m. [dumps (the (m header))]) md)"
  by (induction md) (auto simp: encode_utf8_ok_dumps simp del: dumps.simps)

lemma picrust_formatter_all:
  assumes "md \<noteq> []" and "\<forall>m\<in>set md. m header \<noteq> None" and "grp (''metadata/'' @ header) = None"
  shows "picrust_formatter grp header md compression
           = Inr (grp(''metadata/'' @ header \<mapsto> map (\<lambda>m. [dumps (the (m header))]) md))"
proof -
  define rs where "rs = map (\<lambda>m. [dumps (the (m header))]) md"
  define new_md where "new_md = map (\<lambda>m. [header \<mapsto> PList [PStr (dumps (the (m header)))]]) md"
  have new: "new_md_of header md = Inr new_md"
    unfolding new_md_def by (rule new_md_of_all) (rule assms(2))
  have checks: "vlen_checks header new_md = Inr (replicate (length md) True, replicate (length md) 1)"
    unfolding new_md_def by (rule vlen_checks_new_md)
  have rows: "vlen_rows header new_md = Inr rs"
    unfolding rs_def new_md_def by (rule vlen_rows_new_md)
  have len: "0 < length md" using assms(1) by simp
  then have mx: "Max (set (replicate (length md) (1::nat))) = 1" by simp
  have pad: "map (pad_row (Suc 0)) rs = rs" by (simp add: rs_def pad_row_def)
  have all: "list_all (\<lambda>b. b) (replicate (length md) True)" by (simp add: list_all_iff)
  have ne: "replicate (length md) (1::nat) \<noteq> []" using len by simp
  have "vlen_list_of_str_formatter grp header new_md compression = Inr (grp(''metadata/'' @ header \<mapsto> rs))"
    unfolding vlen_list_of_str_formatter_def checks rows
    using all ne assms(3) len by (simp add: pad)
  then have "picrust_formatter grp header md compression = Inr (grp(''metadata/'' @ header \<mapsto> rs))"
    by (simp add: picrust_formatter_def list_of_list_of_str_formatter_def new)
  then show ?thesis by (simp add: rs_def)
qed

lemma picrust_parser_single:
  "no_surrogate_pair v \<Longrightarrow> picrust_parser [PList [PStr (dumps v)]] = Inr (PList [v])"
  by (simp add: picrust_parser_def loads_str_dumps)

lemma dumps_surrogates:
  "dumps surrogates = [0x5B, 0x22, 0x5C, 0x75, 0x64, 0x38, 0x33, 0x64, 0x5C, 0x75, 0x64, 0x65, 0x30, 0x30, 0x22, 0x5D]"
  by (simp add: surrogates_def py_encode_basestring_ascii_def py_encode_char_def hex4_def hexdigit_def)

lemma scanstring_surrogates:
  "scanstring [] [0x5C, 0x75, 0x64, 0x38, 0x33, 0x64, 0x5C, 0x75, 0x64, 0x65, 0x30, 0x30, 0x22, 0x5D]
     = Inr ([0x1F600], [0x5D])"
  by (simp add: decode_uXXXX_def hexval_def high_surrogate_def low_surrogate_def low_surrogate_ahead_def)

lemma loads_surrogates: "loads_str (dumps surrogates) = Inr (PList [PStr [0x1F600]])"
proof -
  have "scan_once (Suc (Suc (Suc k))) [0x5B, 0x22, 0x5C, 0x75, 0x64, 0x38, 0x33, 0x64, 0x5C, 0x75, 0x64, 0x65, 0x30, 0x30, 0x22, 0x5D]
          = Inr (PList [PStr [0x1F600]], [])" for k
    by (simp add: skip_ws_def is_ws_def scanstring_surrogates del: scanstring.simps)
  from this [of 31] show ?thesis
    unfolding dumps_surrogates loads_str_def by (simp add: skip_ws_def is_ws_def)
qed


lemma picrust_parser_surrogates:
  "picrust_parser [PList [PStr (dumps surrogates)]] = Inr (PList [PList [PStr [0x1F600]]])"
  by (simp add: picrust_parser_def loads_surrogates del: dumps.simps)

text \<open>
  Claim C5, as amended. Take axis metadata with a value under the header in every row,
  and a group that has no dataset for the header yet. Then \<open>picrust_formatter\<close>
  stores for each row a single string, the JSON text of the value. And
  \<open>picrust_parser\<close>, handed a stored row as the library hands it over, returns a
  list with one element, which is the original value, provided no string of the value
  has a high surrogate directly followed by a low surrogate. The values are those of
  \<open>pyval\<close>, a list of strings among them. The parser accumulates over its arguments,
  so the value comes back wrapped in a list and not as itself.
\<close>

theorem picrust_roundtrip_wrapped:
  assumes "md \<noteq> []" and "\<forall>m\<in>set md. m header \<noteq> None" and "grp (''metadata/'' @ header) = None"
  shows "picrust_formatter grp header md compression
           = Inr (grp(''metadata/'' @ header \<mapsto> map (\<lambda>m. [dumps (the (m header))]) md))
         \<and> (\<forall>i<length md. no_surrogate_pair (the ((md ! i) header)) \<longrightarrow>
               parse_stored (grp(''metadata/'' @ header \<mapsto> map (\<lambda>m. [dumps (the (m header))]) md))
                 header i = Inr (PList [the ((md ! i) header)]))"
  using picrust_formatter_all [of md header grp compression, OF assms]
  by (simp add: parse_stored_def stored_value_def picrust_parser_single del: dumps.simps)

theorem picrust_roundtrip_wrapped_witness:
  "[[''KEGG_Pathways'' \<mapsto> pathways]] \<noteq> []
   \<and> [''KEGG_Pathways'' \<mapsto> pathways] ''KEGG_Pathways'' \<noteq> None
   \<and> (Map.empty :: h5group) (''metadata/'' @ ''KEGG_Pathways'') = None
   \<and> no_surrogate_pair pathways
   \<and> picrust_formatter Map.empty ''KEGG_Pathways'' [[''KEGG_Pathways'' \<mapsto> pathways]] False
        = Inr [''metadata/KEGG_Pathways'' \<mapsto> [[dumps pathways]]]
   \<and> parse_stored [''metadata/KEGG_Pathways'' \<mapsto> [[dumps pathways]]] ''KEGG_Pathways'' 0
        = Inr (PList [pathways])"
proof -
  have ok: "no_surrogate_pair pathways"
    by (simp add: pathways_def is_str_ascii pair_free_ascii del: ascii_simps)
  show ?thesis
    using picrust_roundtrip_wrapped
      [of "[[''KEGG_Pathways'' \<mapsto> pathways]]" "''KEGG_Pathways''" Map.empty False] ok
    by simp
qed

text \<open>
  The parsed value is not the original list: for the two pathway names it is the list
  that holds the list of the two names. And a high surrogate followed by a low one
  does not come back at all: the list with the string of the two code points
  \<open>0xD83D\<close>, \<open>0xDE00\<close> is stored as the text
  \<^verbatim>\<open>["\ud83d\ude00"]\<close> and parsed as the list that
  holds the list with the string of the one code point \<open>0x1F600\<close>.
\<close>

theorem picrust_roundtrip_counterexample:
  "picrust_formatter Map.empty ''KEGG_Pathways'' [[''KEGG_Pathways'' \<mapsto> pathways]] False
     = Inr [''metadata/KEGG_Pathways'' \<mapsto> [[dumps pathways]]]
   \<and> parse_stored [''metadata/KEGG_Pathways'' \<mapsto> [[dumps pathways]]] ''KEGG_Pathways'' 0
        \<noteq> Inr pathways
   \<and> picrust_formatter Map.empty ''KEGG_Pathways'' [[''KEGG_Pathways'' \<mapsto> surrogates]] False
     = Inr [''metadata/KEGG_Pathways'' \<mapsto> [[dumps surrogates]]]
   \<and> parse_stored [''metadata/KEGG_Pathways'' \<mapsto> [[dumps surrogates]]] ''KEGG_Pathways'' 0
        = Inr (PList [PList [PStr [0x1F600]]])"
proof -
  have ok: "no_surrogate_pair pathways"
    by (simp add: pathways_def is_str_ascii pair_free_ascii del: ascii_simps)
  have "picrust_formatter Map.empty ''KEGG_Pathways'' [[''KEGG_Pathways'' \<mapsto> v]] False
     = Inr [''metadata/KEGG_Pathways'' \<mapsto> [[dumps v]]]" for v
    using picrust_formatter_all [of "[[''KEGG_Pathways'' \<mapsto> v]]" "''KEGG_Pathways''" Map.empty False]
    by simp
  moreover have "parse_stored [''metadata/KEGG_Pathways'' \<mapsto> [[dumps pathways]]] ''KEGG_Pathways'' 0
        = Inr (PList [pathways])"
    using ok by (simp add: parse_stored_def stored_value_def picrust_parser_single del: dumps.simps)
  moreover have "PList [pathways] \<noteq> pathways" by (simp add: pathways_def)
  moreover have "parse_stored [''metadata/KEGG_Pathways'' \<mapsto> [[dumps surrogates]]] ''KEGG_Pathways'' 0
        = Inr (PList [PList [PStr [0x1F600]]])"
    by (simp add: parse_stored_def stored_value_def picrust_parser_surrogates del: dumps.simps)
  ultimately show ?thesis by simp
qed

section \<open>The cells before the alpha diversity\<close>

text \<open>
  Claim C10. In a fresh kernel, once the imports, the depths and the directories are
  done, the cell that builds the taxonomy lookup raises \<open>NameError\<close> for
  \<open>load_table\<close>: the notebook imports \<open>biom\<close> and never binds the bare name. The
  lookup is not built.
\<close>

theorem taxa_lookup_unbound_name:
  assumes "run_cells [cell_imports, cell_depths, cell_mkdirs] fresh fs = Inr (k, fs')"
  shows "cell_taxa_lookup k fs' = Inl (NameError ''load_table'')"
proof -
  have "load_table k = None"
    using assms
    by (auto simp: cell_imports_def cell_depths_def cell_mkdirs_def fresh_def
        split: sum.splits option.splits)
  then show ?thesis by (simp add: cell_taxa_lookup_def)
qed

lemma export_depth_TypeError:
  "''biom'' \<in> set (modules k) \<Longrightarrow> ''os'' \<in> set (modules k) \<Longrightarrow> export_depth depth k fs = Inl TypeError"
  by (simp add: export_depth_def need_module_def biom_load_table_def Let_def)

lemma cell_export_TypeError:
  "''biom'' \<in> set (modules k) \<Longrightarrow> ''os'' \<in> set (modules k) \<Longrightarrow> depths k = Some (d # ds)
     \<Longrightarrow> cell_export k fs = Inl TypeError"
  by (simp add: cell_export_def export_depth_TypeError)

lemma prefix_cells:
  assumes "run_cells [cell_imports, cell_depths, cell_mkdirs] fresh fs = Inr (k, fs')"
  shows "load_table k = None" "''biom'' \<in> set (modules k)" "''os'' \<in> set (modules k)"
    "depths k = Some [''1250'', ''2500'', ''5000'', ''10000'', ''50000'']"
  using assms
  by (auto simp: cell_imports_def cell_depths_def cell_mkdirs_def fresh_def
        split: sum.splits option.splits)

lemma mkdirs_loop_total_on_export_fs:
  "\<exists>fs'. mkdirs_loop k [''1250'', ''2500'', ''5000'', ''10000'', ''50000''] export_fs = Inr fs'"
  if "''os'' \<in> set (modules k)"
  using that
  by (simp add: export_fs_def need_module_def exists_path_def makedirs_def mkdir_p_def put_def remove_def)


lemma prefix_cells_empty:
  "run_cells [cell_imports, cell_depths, cell_mkdirs] fresh [] = Inr (ready_kernel, packaged_dirs)"
  by (simp add: cell_imports_def cell_depths_def cell_mkdirs_def fresh_def ready_kernel_def
      packaged_dirs_def need_module_def exists_path_def makedirs_def mkdir_p_def put_def remove_def)

theorem taxa_lookup_unbound_name_witness:
  "run_cells [cell_imports, cell_depths, cell_mkdirs] fresh [] = Inr (ready_kernel, packaged_dirs)
   \<and> cell_taxa_lookup ready_kernel packaged_dirs = Inl (NameError ''load_table'')"
  using taxa_lookup_unbound_name [of "[]" ready_kernel packaged_dirs] prefix_cells_empty
  by simp

lemma prefix_cells_export_fs:
  "\<exists>k fs'. run_cells [cell_imports, cell_depths, cell_mkdirs] fresh export_fs = Inr (k, fs')"
  by (simp add: cell_imports_def cell_depths_def cell_mkdirs_def fresh_def export_fs_def
      need_module_def exists_path_def makedirs_def mkdir_p_def put_def remove_def)

lemma run_cells_append:
  "run_cells (cs @ ds) k fs =
     (case run_cells cs k fs of Inl e \<Rightarrow> Inl e | Inr (k', fs') \<Rightarrow> run_cells ds k' fs')"
  by (induction cs arbitrary: k fs) (auto split: sum.splits)

text \<open>
  Claim C1, at the scenario of the specification: a rarefied artifact for depth 1250
  with three features and two samples, and a base table with the taxonomy of the same
  features. The export cell calls \<open>biom.load_table\<close> with two arguments and stops
  with \<open>TypeError\<close> at the first depth; run after the taxonomy cell, the notebook
  has stopped there already. No packaged table is written.
\<close>

theorem rarefied_table_not_packaged:
  "run_cells [cell_imports, cell_depths, cell_mkdirs, cell_export] fresh export_fs = Inl TypeError
   \<and> run_cells [cell_imports, cell_depths, cell_mkdirs, cell_taxa_lookup, cell_export] fresh export_fs
       = Inl (NameError ''load_table'')"
proof -
  obtain k fs' where run: "run_cells [cell_imports, cell_depths, cell_mkdirs] fresh export_fs = Inr (k, fs')"
    using prefix_cells_export_fs by blast
  have ex: "cell_export k fs' = Inl TypeError"
    using prefix_cells [OF run] by (simp add: cell_export_TypeError)
  have tl: "cell_taxa_lookup k fs' = Inl (NameError ''load_table'')"
    using prefix_cells(1) [OF run] by (simp add: cell_taxa_lookup_def)
  have "run_cells ([cell_imports, cell_depths, cell_mkdirs] @ [cell_export]) fresh export_fs
          = Inl TypeError"
    unfolding run_cells_append using run ex by simp
  moreover have "run_cells ([cell_imports, cell_depths, cell_mkdirs] @ [cell_taxa_lookup, cell_export])
                   fresh export_fs = Inl (NameError ''load_table'')"
    unfolding run_cells_append using run tl by simp
  ultimately show ?thesis by simp
qed

section \<open>Looking up the file system after an operation\<close>

lemma map_of_remove: "map_of (remove fs p) q = (if q = p then None else map_of fs q)"
  by (induction fs) (auto simp: remove_def)

lemma map_of_put: "map_of (put fs p n) q = (if q = p then Some n else map_of fs q)"
  by (simp add: put_def map_of_remove)

lemma write_file_lookup:
  "write_file fs p c = Inr fs' \<Longrightarrow> map_of fs' q = (if q = p then Some (File c) else map_of fs q)"
  by (auto simp: write_file_def map_of_put split: if_splits)

lemma write_file_is_dir:
  "write_file fs p c = Inr fs' \<Longrightarrow> is_dir fs' q = is_dir fs q"
  by (auto simp: write_file_def is_dir_def map_of_put split: if_splits)

lemma write_file_ok:
  "p \<noteq> [] \<Longrightarrow> is_dir fs (butlast p) \<Longrightarrow> map_of fs p \<noteq> Some Dir
     \<Longrightarrow> write_file fs p c = Inr (put fs p (File c))"
  by (simp add: write_file_def)

lemma inside_refl: "inside p p"
  by (simp add: inside_def)

lemma inside_append: "inside p (p @ r)"
  by (simp add: inside_def)

lemma inside_take: "inside (take k p) p"
  by (simp add: inside_def min_def take_all)

lemma inside_length: "inside q p \<Longrightarrow> length q \<le> length p"
proof -
  assume "inside q p"
  then have "length (take (length q) p) = length q" by (simp add: inside_def)
  then show ?thesis by simp
qed

lemma inside_trans: "inside a b \<Longrightarrow> inside b c \<Longrightarrow> inside a c"
proof -
  assume ab: "inside a b" and bc: "inside b c"
  have "length a \<le> length b" using ab by (rule inside_length)
  then have "take (length a) c = take (length a) (take (length b) c)" by (simp add: min_def)
  also have "\<dots> = take (length a) b" using bc by (simp add: inside_def)
  also have "\<dots> = a" using ab by (simp add: inside_def)
  finally show ?thesis by (simp add: inside_def)
qed

lemma inside_is_take: "inside q p \<Longrightarrow> q = take (length q) p"
  by (simp add: inside_def)


lemma make_prefixes_lookup:
  "make_prefixes k p fs = Some fs' \<Longrightarrow> k \<le> length p \<Longrightarrow>
   map_of fs' q =
     (if map_of fs q = None \<and> q \<noteq> [] \<and> inside q p \<and> length q \<le> k then Some Dir
      else map_of fs q)"
proof (induction k arbitrary: fs')
  case 0
  then show ?case by auto
next
  case (Suc k)
  from Suc.prems(1) obtain fs1 where
    one: "make_prefixes k p fs = Some fs1"
    and two: "(case map_of fs1 (take (Suc k) p) of
                 None \<Rightarrow> Some (put fs1 (take (Suc k) p) Dir)
               | Some Dir \<Rightarrow> Some fs1
               | Some (File c) \<Rightarrow> None) = Some fs'"
    by (simp split: option.splits)
  have ih: "map_of fs1 q =
     (if map_of fs q = None \<and> q \<noteq> [] \<and> inside q p \<and> length q \<le> k then Some Dir
      else map_of fs q)"
    using Suc.IH [OF one] Suc.prems(2) by simp
  have len: "length (take (Suc k) p) = Suc k" using Suc.prems(2) by simp
  have eq: "q = take (Suc k) p \<longleftrightarrow> inside q p \<and> length q = Suc k"
  proof
    assume "q = take (Suc k) p"
    then show "inside q p \<and> length q = Suc k" using len inside_take by simp
  next
    assume "inside q p \<and> length q = Suc k"
    then show "q = take (Suc k) p" using inside_is_take by metis
  qed
  show ?case
  proof (cases "map_of fs1 (take (Suc k) p)")
    case None
    then have fs': "fs' = put fs1 (take (Suc k) p) Dir" using two by simp
    show ?thesis
    proof (cases "q = take (Suc k) p")
      case True
      then have "map_of fs1 q = None" using None by simp
      then have n: "map_of fs q = None" using ih by (simp split: if_splits)
      have "q \<noteq> []" "inside q p" "length q \<le> Suc k" using True len eq by auto
      then show ?thesis using fs' True n by (simp add: map_of_put)
    next
      case False
      then have ne: "\<not> (inside q p \<and> length q = Suc k)" using eq by simp
      have "map_of fs' q = map_of fs1 q" using fs' False by (simp add: map_of_put)
      then show ?thesis using ih ne by (simp add: le_Suc_eq)
    qed
  next
    case (Some n)
    then have n: "n = Dir" and fs': "fs' = fs1" using two by (simp_all split: node.splits)
    show ?thesis
    proof (cases "q = take (Suc k) p")
      case True
      then have d: "map_of fs1 q = Some Dir" using Some n by simp
      have "q \<noteq> []" "inside q p" "length q \<le> Suc k" using True len eq by auto
      then show ?thesis using fs' d ih by (simp split: if_splits)
    next
      case False
      then have ne: "\<not> (inside q p \<and> length q = Suc k)" using eq by simp
      then show ?thesis using fs' ih by (simp add: le_Suc_eq)
    qed
  qed
qed


lemma mkdir_p_lookup:
  assumes "mkdir_p fs p = Some fs'"
  shows "map_of fs' q = (if map_of fs q = None \<and> q \<noteq> [] \<and> inside q p then Some Dir else map_of fs q)"
proof -
  have "make_prefixes (length p) p fs = Some fs'" using assms by (simp add: mkdir_p_def)
  from make_prefixes_lookup [OF this, of q]
  show ?thesis using inside_length [of q p] by auto
qed

lemma mkdir_p_frame:
  "mkdir_p fs p = Some fs' \<Longrightarrow> \<not> inside q p \<Longrightarrow> map_of fs' q = map_of fs q"
  by (simp add: mkdir_p_lookup)

lemma map_of_unpack_frame:
  assumes "\<not> inside base q"
  shows "map_of (unpack fs base es) q = map_of fs q"
proof -
  have a: "map_of (map (\<lambda>(rel, c). (base @ rel, File c)) xs) q = None" for xs :: "(path \<times> content) list"
    using assms by (induction xs) (auto simp: inside_append)
  have b: "map_of (map (\<lambda>d. (base @ d, Dir)) ds) q = None" for ds
    using assms by (induction ds) (auto simp: inside_append)
  show ?thesis by (simp add: unpack_def map_add_def a b)
qed

lemma export_frame:
  assumes "\<not> inside out q" and "\<not> inside q out"
  shows "map_of (qiime_tools_export fs a out) q = map_of fs q"
proof (cases "map_of fs a")
  case None
  then show ?thesis by (simp add: qiime_tools_export_def)
next
  case (Some n)
  show ?thesis
  proof (cases n)
    case Dir
    then show ?thesis using Some by (simp add: qiime_tools_export_def)
  next
    case (File c)
    show ?thesis
    proof (cases c)
      case (Qza u es)
      show ?thesis
      proof (cases "mkdir_p fs out")
        case None
        then show ?thesis using Some File Qza by (simp add: qiime_tools_export_def)
      next
        case (Some fs1)
        have "map_of fs1 q = map_of fs q" using Some assms(2) by (rule mkdir_p_frame)
        then show ?thesis
          using \<open>map_of fs a = Some n\<close> File Qza Some assms(1)
          by (simp add: qiime_tools_export_def map_of_unpack_frame)
      qed
    qed (use Some File in \<open>simp_all add: qiime_tools_export_def\<close>)
  qed
qed

lemma make_prefixes_succeeds:
  assumes "\<And>j c. 0 < j \<Longrightarrow> j \<le> k \<Longrightarrow> map_of fs (take j p) \<noteq> Some (File c)" and "k \<le> length p"
  shows "\<exists>fs'. make_prefixes k p fs = Some fs'"
  using assms
proof (induction k)
  case 0
  then show ?case by simp
next
  case (Suc k)
  have "\<exists>fs1. make_prefixes k p fs = Some fs1"
    using Suc.IH Suc.prems by (metis Suc_leD le_SucI)
  then obtain fs1 where one: "make_prefixes k p fs = Some fs1" by blast
  have l: "map_of fs1 (take (Suc k) p) =
     (if map_of fs (take (Suc k) p) = None \<and> take (Suc k) p \<noteq> [] \<and> inside (take (Suc k) p) p
          \<and> length (take (Suc k) p) \<le> k then Some Dir
      else map_of fs (take (Suc k) p))"
    using make_prefixes_lookup [OF one, of "take (Suc k) p"] Suc.prems(2) by simp
  have "length (take (Suc k) p) = Suc k" using Suc.prems(2) by simp
  then have "map_of fs1 (take (Suc k) p) = map_of fs (take (Suc k) p)" using l by simp
  moreover have "\<And>c. map_of fs (take (Suc k) p) \<noteq> Some (File c)" using Suc.prems(1) by simp
  ultimately have "\<And>c. map_of fs1 (take (Suc k) p) \<noteq> Some (File c)" by simp
  then show ?case using one
  proof (cases "map_of fs1 (take (Suc k) p)")
    case None
    then show ?thesis using one by simp
  next
    case (Some n)
    then have "n = Dir" using \<open>\<And>c. map_of fs1 (take (Suc k) p) \<noteq> Some (File c)\<close>
      by (cases n) auto
    then show ?thesis using one Some by simp
  qed
qed

lemma mkdir_p_succeeds:
  assumes "\<And>q c. q \<noteq> [] \<Longrightarrow> inside q p \<Longrightarrow> map_of fs q \<noteq> Some (File c)"
  shows "\<exists>fs'. mkdir_p fs p = Some fs'"
proof -
  have "\<And>j c. 0 < j \<Longrightarrow> j \<le> length p \<Longrightarrow> map_of fs (take j p) \<noteq> Some (File c)"
  proof -
    fix j c assume "0 < j" "j \<le> length p"
    then have "take j p \<noteq> []" by (cases p) auto
    then show "map_of fs (take j p) \<noteq> Some (File c)" using assms inside_take by blast
  qed
  then show ?thesis unfolding mkdir_p_def by (rule make_prefixes_succeeds) simp_all
qed

lemma mkdir_p_dirs:
  assumes "mkdir_p fs p = Some fs'" and "q \<noteq> []" and "inside q p"
  shows "map_of fs' q = Some Dir"
proof -
  have mp: "make_prefixes (length p) p fs = Some fs'" using assms(1) by (simp add: mkdir_p_def)
  have q: "q = take (length q) p" "length q \<le> length p" "0 < length q"
    using assms(2,3) inside_is_take inside_length by auto
  have "\<And>k fs1. make_prefixes k p fs = Some fs1 \<Longrightarrow> k \<le> length p \<Longrightarrow> 0 < j \<Longrightarrow> j \<le> k
          \<Longrightarrow> map_of fs1 (take j p) = Some Dir" for j
  proof -
    fix k fs1
    show "make_prefixes k p fs = Some fs1 \<Longrightarrow> k \<le> length p \<Longrightarrow> 0 < j \<Longrightarrow> j \<le> k
          \<Longrightarrow> map_of fs1 (take j p) = Some Dir"
    proof (induction k arbitrary: fs1)
      case 0
      then show ?case by simp
    next
      case (Suc k)
      from Suc.prems(1) obtain fs0 where
        one: "make_prefixes k p fs = Some fs0"
        and two: "(case map_of fs0 (take (Suc k) p) of
                 None \<Rightarrow> Some (put fs0 (take (Suc k) p) Dir)
               | Some Dir \<Rightarrow> Some fs0
               | Some (File c) \<Rightarrow> None) = Some fs1"
        by (simp split: option.splits)
      show ?case
      proof (cases "j = Suc k")
        case True
        then show ?thesis using two
          by (cases "map_of fs0 (take (Suc k) p)") (auto simp: map_of_put split: node.splits)
      next
        case False
        then have jk: "j \<le> k" using Suc.prems(4) by simp
        have ih: "map_of fs0 (take j p) = Some Dir"
          using Suc.IH [OF one] Suc.prems(2,3) jk by simp
        have "length (take j p) = j" "length (take (Suc k) p) = Suc k"
          using Suc.prems(2) jk by simp_all
        then have ne: "take j p \<noteq> take (Suc k) p" using False by metis
        show ?thesis using two ih ne
          by (cases "map_of fs0 (take (Suc k) p)") (auto simp: map_of_put split: node.splits)
      qed
    qed
  qed
  from this [OF mp, of "length q"] show ?thesis using q by simp
qed

section \<open>The full PICRUSt table\<close>

lemma picrust_paths_differ: "picrust_out d [] \<noteq> picrust_path []"
  by (simp add: picrust_out_def picrust_path_def)

lemma picrust_out_inj: "picrust_out d [] = picrust_out d' [] \<longleftrightarrow> d = d'"
  by (simp add: picrust_out_def)

lemma picrust_step_result:
  assumes "picrust_step from_hdf5 to_hdf5 sample_ids d (t0, fs) = Inr (t', fs')"
    and "map_of fs (picrust_path []) = Some (File c)"
  shows "\<exists>t ids c'. from_hdf5 c = Inr t \<and> map_of sample_ids d = Some ids
           \<and> to_hdf5 (filter_samples ids t) (generated_by d) = Inr c'
           \<and> t' = Some t
           \<and> (\<forall>q. map_of fs' q = (if q = picrust_out d [] then Some (File c') else map_of fs q))"
  using assms
  by (auto simp: picrust_step_def table_filter_def write_file_lookup
      split: option.splits sum.splits node.splits prod.splits)

lemma picrust_loop_result:
  assumes "picrust_loop from_hdf5 to_hdf5 sample_ids ds (t0, fs) = Inr (t', fs')"
    and "map_of fs (picrust_path []) = Some (File c)"
  shows "map_of fs' (picrust_path []) = Some (File c)
       \<and> (\<forall>q. q \<notin> (\<lambda>d. picrust_out d []) ` set ds \<longrightarrow> map_of fs' q = map_of fs q)
       \<and> (ds \<noteq> [] \<longrightarrow> (\<exists>t. from_hdf5 c = Inr t \<and> t' = Some t))
       \<and> (\<forall>d\<in>set ds. \<exists>t ids c'. from_hdf5 c = Inr t \<and> map_of sample_ids d = Some ids
              \<and> to_hdf5 (filter_samples ids t) (generated_by d) = Inr c'
              \<and> map_of fs' (picrust_out d []) = Some (File c'))"
  using assms
proof (induction ds arbitrary: t0 fs)
  case Nil
  then show ?case by simp
next
  case (Cons d ds)
  from Cons.prems(1) obtain t1 fs1 where
    step: "picrust_step from_hdf5 to_hdf5 sample_ids d (t0, fs) = Inr (t1, fs1)"
    and rest: "picrust_loop from_hdf5 to_hdf5 sample_ids ds (t1, fs1) = Inr (t', fs')"
    by (auto split: sum.splits)
  from picrust_step_result [OF step Cons.prems(2)] obtain t ids c' where
    t: "from_hdf5 c = Inr t" "map_of sample_ids d = Some ids"
       "to_hdf5 (filter_samples ids t) (generated_by d) = Inr c'" "t1 = Some t"
    and fs1: "\<And>q. map_of fs1 q = (if q = picrust_out d [] then Some (File c') else map_of fs q)"
    by blast
  have base1: "map_of fs1 (picrust_path []) = Some (File c)"
    using fs1 [of "picrust_path []"] Cons.prems(2) picrust_paths_differ [of d] by auto
  note ih = Cons.IH [OF rest base1]
  have a: "map_of fs' (picrust_path []) = Some (File c)" using ih by simp
  have b: "\<forall>q. q \<notin> (\<lambda>d. picrust_out d []) ` set (d # ds) \<longrightarrow> map_of fs' q = map_of fs q"
    using ih fs1 by auto
  have c: "\<exists>t. from_hdf5 c = Inr t \<and> t' = Some t"
  proof (cases ds)
    case Nil
    then show ?thesis using rest t by simp
  next
    case (Cons e es)
    then show ?thesis using ih by simp
  qed
  have d: "\<exists>t ids c'. from_hdf5 c = Inr t \<and> map_of sample_ids x = Some ids
              \<and> to_hdf5 (filter_samples ids t) (generated_by x) = Inr c'
              \<and> map_of fs' (picrust_out x []) = Some (File c')" if "x \<in> set (d # ds)" for x
  proof (cases "x \<in> set ds")
    case True
    then show ?thesis using ih by blast
  next
    case False
    then have "x = d" using that by simp
    moreover have "picrust_out d [] \<notin> (\<lambda>d. picrust_out d []) ` set ds"
      using False \<open>x = d\<close> by (auto simp: picrust_out_inj)
    then have "map_of fs' (picrust_out d []) = map_of fs1 (picrust_out d [])" using ih by blast
    ultimately show ?thesis using t fs1 by auto
  qed
  show ?case using a b c d by blast
qed

text \<open>
  Claim C8. The full-PICRUSt loop reloads the base table at every depth and filters it
  with \<open>inplace=False\<close>: the filter returns a copy and leaves the loaded table as it
  was. So after the loop \<open>t_in\<close> is the table as loaded, the file it was loaded from
  is untouched, and the table written for a depth is the loaded table filtered to that
  depth's samples whichever way the depths are ordered: the reverse order of the cell
  (\<open>cell_picrust\<close>) and any other order \<open>ds'\<close> of the same depths write the same
  file for each depth.
\<close>

theorem picrust_filter_keeps_base_table:
  assumes "cell_picrust from_hdf5 to_hdf5 ds sample_ids (t0, fs) = Inr (t1, fs1)"
    and "picrust_loop from_hdf5 to_hdf5 sample_ids ds' (t0, fs) = Inr (t2, fs2)"
    and "set ds' = set ds" and "d \<in> set ds"
    and "map_of fs (picrust_path []) = Some (File c)"
  shows "\<exists>t ids c'. from_hdf5 c = Inr t \<and> map_of sample_ids d = Some ids
           \<and> table_filter ids False t = (t, filter_samples ids t)
           \<and> t1 = Some t \<and> t2 = Some t
           \<and> to_hdf5 (filter_samples ids t) (generated_by d) = Inr c'
           \<and> map_of fs1 (picrust_out d []) = Some (File c')
           \<and> map_of fs2 (picrust_out d []) = Some (File c')
           \<and> map_of fs1 (picrust_path []) = Some (File c)"
proof -
  have rev: "picrust_loop from_hdf5 to_hdf5 sample_ids (rev ds) (t0, fs) = Inr (t1, fs1)"
    using assms(1) by (simp add: cell_picrust_def)
  note r1 = picrust_loop_result [OF rev assms(5)]
  note r2 = picrust_loop_result [OF assms(2) assms(5)]
  have d1: "d \<in> set (rev ds)" and d2: "d \<in> set ds'" using assms(3,4) by simp_all
  from r1 d1 obtain t ids c' where
    t: "from_hdf5 c = Inr t" "map_of sample_ids d = Some ids"
       "to_hdf5 (filter_samples ids t) (generated_by d) = Inr c'"
       "map_of fs1 (picrust_out d []) = Some (File c')"
    by blast
  from r2 d2 t have out2: "map_of fs2 (picrust_out d []) = Some (File c')" by fastforce
  have "rev ds \<noteq> []" "ds' \<noteq> []" using d1 d2 by auto
  then have t12: "t1 = Some t" "t2 = Some t" using r1 r2 t(1) by auto
  have "table_filter ids False t = (t, filter_samples ids t)" by (simp add: table_filter_def)
  then show ?thesis using t out2 t12 r1 by blast
qed

lemma picrust_example_runs:
  "\<exists>t1 fs1. cell_picrust read_stored write_stored [''1250'', ''2500''] two_depths (None, picrust_fs)
      = Inr (t1, fs1)"
  "\<exists>t2 fs2. picrust_loop read_stored write_stored two_depths [''1250'', ''2500''] (None, picrust_fs)
      = Inr (t2, fs2)"
  by (simp_all add: cell_picrust_def picrust_step_def picrust_fs_def two_depths_def
      read_stored_def write_stored_def table_filter_def write_file_def is_dir_def
      picrust_path_def picrust_out_def map_of_put)

theorem picrust_filter_keeps_base_table_witness:
  "\<not> isl (cell_picrust read_stored write_stored [''1250'', ''2500''] two_depths (None, picrust_fs))
   \<and> \<not> isl (picrust_loop read_stored write_stored two_depths [''1250'', ''2500''] (None, picrust_fs))
   \<and> fst (projr (cell_picrust read_stored write_stored [''1250'', ''2500''] two_depths (None, picrust_fs)))
        = Some picrust_table
   \<and> map_of (snd (projr (cell_picrust read_stored write_stored [''1250'', ''2500''] two_depths
                         (None, picrust_fs)))) (picrust_out ''1250'' [])
        = Some (File (Biom (filter_samples [''s1'', ''s2''] picrust_table)))
   \<and> map_of (snd (projr (picrust_loop read_stored write_stored two_depths [''1250'', ''2500'']
                         (None, picrust_fs)))) (picrust_out ''1250'' [])
        = Some (File (Biom (filter_samples [''s1'', ''s2''] picrust_table)))"
proof -
  obtain t1 fs1 t2 fs2 where
    r1: "cell_picrust read_stored write_stored [''1250'', ''2500''] two_depths (None, picrust_fs)
           = Inr (t1, fs1)"
    and r2: "picrust_loop read_stored write_stored two_depths [''1250'', ''2500''] (None, picrust_fs)
           = Inr (t2, fs2)"
    using picrust_example_runs by blast
  have base: "map_of picrust_fs (picrust_path []) = Some (File (Biom picrust_table))"
    by (simp add: picrust_fs_def picrust_path_def)
  from picrust_filter_keeps_base_table [OF r1 r2 _ _ base, of "''1250''"]
  show ?thesis using r1 r2 by (auto simp: read_stored_def write_stored_def two_depths_def)
qed

section \<open>Exporting and reading the alpha diversity\<close>

lemma read_alpha_metric:
  assumes "metric \<in> set [''observed_otus'', ''faiths_pd'', ''shannon'']" and "value_header t = metric"
  shows "read_alpha metric new t =
           (if new = ''#SampleID'' then Inl Unsupported
            else Inr \<lparr>columns = [new], rows = map (\<lambda>(s, v). (s, [v])) (entries t)\<rparr>)"
  using assms by (auto simp: read_alpha_def rename_col_def Let_def)

lemma alpha_column_not_index:
  assumes "metric \<in> set [''observed_otus'', ''faiths_pd'', ''shannon'']"
  shows "alpha_column metric depth i \<noteq> ''#SampleID''"
proof
  assume eq: "alpha_column metric depth i = ''#SampleID''"
  have m: "metric \<noteq> [] \<and> hd metric \<noteq> CHR ''#''" using assms by auto
  then have "hd (alpha_column metric depth i) = hd metric" by (simp add: alpha_column_def)
  moreover have "hd (alpha_column metric depth i) = CHR ''#''" unfolding eq by simp
  ultimately show False using m by simp
qed

lemma single_entry_archive:
  "data_entries [([''data'', name], c)] = [([name], c)]"
  "archive_dirs [([name], c)] = []"
  "wf_archive [([name], c)]"
  by (simp_all add: data_entries_def archive_dirs_def wf_archive_def)

lemma alpha_iteration_ok:
  assumes m: "metric \<in> set [''observed_otus'', ''faiths_pd'', ''shannon'']"
    and art: "map_of fs (alpha_artifact depth metric i)
                = Some (File (Qza u [([''data'', ''alpha-diversity.tsv''], AlphaTsv t)]))"
    and hdr: "value_header t = metric"
    and mk: "mkdir_p fs (alpha_dir depth metric) = Some fs1"
    and nd: "map_of fs1 (alpha_dir depth metric @ [''alpha-diversity.tsv'']) \<noteq> Some Dir"
  shows "alpha_iteration depth metric i fs =
           Inr (\<lparr>columns = [alpha_column metric depth i], rows = map (\<lambda>(s, v). (s, [v])) (entries t)\<rparr>,
                (alpha_dir depth metric @ [''alpha-diversity.tsv''], File (AlphaTsv t)) # fs1)"
proof -
  have ex: "qiime_tools_export fs (alpha_artifact depth metric i) (alpha_dir depth metric)
              = (alpha_dir depth metric @ [''alpha-diversity.tsv''], File (AlphaTsv t)) # fs1"
    using art mk nd
    by (simp add: qiime_tools_export_def single_entry_archive unpackable_def unpack_def)
  show ?thesis
    unfolding alpha_iteration_def ex Let_def
    using read_alpha_metric [OF m hdr] alpha_column_not_index [OF m]
    by (simp add: read_csv_alpha_def)
qed


lemma alpha_paths:
  "length (alpha_dir depth metric) = 4"
  "length (alpha_artifact depth metric i) = 4"
  by (simp_all add: alpha_dir_def alpha_artifact_def)

lemma tsv_not_prefix: "\<not> inside (alpha_dir depth metric @ [name]) (alpha_dir depth metric)"
  using inside_length [of "alpha_dir depth metric @ [name]" "alpha_dir depth metric"] by auto

lemma artifact_not_tsv: "alpha_artifact depth metric i \<noteq> alpha_dir depth metric' @ [name]"
proof
  assume "alpha_artifact depth metric i = alpha_dir depth metric' @ [name]"
  then have "length (alpha_artifact depth metric i) = length (alpha_dir depth metric' @ [name])"
    by simp
  then show False by (simp add: alpha_paths)
qed

lemma alpha_iterations_ok:
  assumes m: "metric \<in> set [''observed_otus'', ''faiths_pd'', ''shannon'']"
    and arts: "\<forall>i\<in>set js. map_of fs (alpha_artifact depth metric i)
                 = Some (File (Qza (u i) [([''data'', ''alpha-diversity.tsv''], AlphaTsv (t i))]))
               \<and> value_header (t i) = metric"
    and ready: "\<forall>q c. q \<noteq> [] \<and> inside q (alpha_dir depth metric) \<longrightarrow> map_of fs q \<noteq> Some (File c)"
    and nd: "map_of fs (alpha_dir depth metric @ [''alpha-diversity.tsv'']) \<noteq> Some Dir"
  shows "\<exists>fs'. alpha_iterations depth metric js acc fs
               = Inr (acc @ map (\<lambda>i. \<lparr>columns = [alpha_column metric depth i],
                                        rows = map (\<lambda>(s, v). (s, [v])) (entries (t i))\<rparr>) js, fs')
          \<and> (\<forall>q. \<not> inside (alpha_dir depth metric) q \<and> \<not> inside q (alpha_dir depth metric)
                 \<longrightarrow> map_of fs' q = map_of fs q)
          \<and> (\<forall>q c. q \<noteq> [] \<and> inside q (alpha_dir depth metric) \<longrightarrow> map_of fs' q \<noteq> Some (File c))
          \<and> map_of fs' (alpha_dir depth metric @ [''alpha-diversity.tsv'']) \<noteq> Some Dir"
  using arts ready nd
proof (induction js arbitrary: fs acc)
  case Nil
  then show ?case by simp
next
  case (Cons i js)
  let ?dir = "alpha_dir depth metric"
  let ?tsv = "?dir @ [''alpha-diversity.tsv'']"
  obtain fs1 where mk: "mkdir_p fs ?dir = Some fs1"
    using mkdir_p_succeeds [of ?dir fs] Cons.prems(2) by blast
  have tsv1: "map_of fs1 ?tsv = map_of fs ?tsv"
    using mkdir_p_frame [OF mk tsv_not_prefix] by simp
  have art: "map_of fs (alpha_artifact depth metric i)
               = Some (File (Qza (u i) [([''data'', ''alpha-diversity.tsv''], AlphaTsv (t i))]))"
    and hdr: "value_header (t i) = metric"
    using Cons.prems(1) by simp_all
  let ?fs2 = "(?tsv, File (AlphaTsv (t i))) # fs1"
  have step: "alpha_iteration depth metric i fs =
      Inr (\<lparr>columns = [alpha_column metric depth i], rows = map (\<lambda>(s, v). (s, [v])) (entries (t i))\<rparr>, ?fs2)"
    using alpha_iteration_ok [OF m art hdr mk] tsv1 Cons.prems(3) by simp
  have arts2: "\<forall>j\<in>set js. map_of ?fs2 (alpha_artifact depth metric j)
                 = Some (File (Qza (u j) [([''data'', ''alpha-diversity.tsv''], AlphaTsv (t j))]))
               \<and> value_header (t j) = metric"
  proof
    fix j assume j: "j \<in> set js"
    have "map_of fs (alpha_artifact depth metric j)
                 = Some (File (Qza (u j) [([''data'', ''alpha-diversity.tsv''], AlphaTsv (t j))]))"
      and h: "value_header (t j) = metric"
      using Cons.prems(1) j by simp_all
    then have "map_of fs1 (alpha_artifact depth metric j)
                 = Some (File (Qza (u j) [([''data'', ''alpha-diversity.tsv''], AlphaTsv (t j))]))"
      using mkdir_p_lookup [OF mk, of "alpha_artifact depth metric j"] by simp
    then show "map_of ?fs2 (alpha_artifact depth metric j)
                 = Some (File (Qza (u j) [([''data'', ''alpha-diversity.tsv''], AlphaTsv (t j))]))
               \<and> value_header (t j) = metric"
      using h artifact_not_tsv [of depth metric j metric "''alpha-diversity.tsv''"] by simp
  qed
  have ready2: "\<forall>q c. q \<noteq> [] \<and> inside q ?dir \<longrightarrow> map_of ?fs2 q \<noteq> Some (File c)"
  proof (intro allI impI)
    fix q c assume q: "q \<noteq> [] \<and> inside q ?dir"
    then have "q \<noteq> ?tsv" using tsv_not_prefix by blast
    moreover have "map_of fs1 q = Some Dir" using mkdir_p_dirs [OF mk] q by blast
    ultimately show "map_of ?fs2 q \<noteq> Some (File c)" by simp
  qed
  have nd2: "map_of ?fs2 ?tsv \<noteq> Some Dir" by simp
  from Cons.IH [OF arts2 ready2 nd2, of "acc @ [\<lparr>columns = [alpha_column metric depth i],
        rows = map (\<lambda>(s, v). (s, [v])) (entries (t i))\<rparr>]"]
  obtain fs' where
    run: "alpha_iterations depth metric js
            (acc @ [\<lparr>columns = [alpha_column metric depth i], rows = map (\<lambda>(s, v). (s, [v])) (entries (t i))\<rparr>]) ?fs2
          = Inr ((acc @ [\<lparr>columns = [alpha_column metric depth i], rows = map (\<lambda>(s, v). (s, [v])) (entries (t i))\<rparr>])
                 @ map (\<lambda>i. \<lparr>columns = [alpha_column metric depth i],
                                        rows = map (\<lambda>(s, v). (s, [v])) (entries (t i))\<rparr>) js, fs')"
    and frame: "\<forall>q. \<not> inside ?dir q \<and> \<not> inside q ?dir \<longrightarrow> map_of fs' q = map_of ?fs2 q"
    and ready': "\<forall>q c. q \<noteq> [] \<and> inside q ?dir \<longrightarrow> map_of fs' q \<noteq> Some (File c)"
    and nd': "map_of fs' ?tsv \<noteq> Some Dir"
    by blast
  have frame0: "\<forall>q. \<not> inside ?dir q \<and> \<not> inside q ?dir \<longrightarrow> map_of fs' q = map_of fs q"
  proof (intro allI impI)
    fix q assume q: "\<not> inside ?dir q \<and> \<not> inside q ?dir"
    then have "q \<noteq> ?tsv" using inside_append by blast
    then have "map_of ?fs2 q = map_of fs1 q" by simp
    also have "\<dots> = map_of fs q" using mkdir_p_frame [OF mk] q by blast
    finally show "map_of fs' q = map_of fs q" using frame q by simp
  qed
  show ?case using step run frame0 ready' nd' by simp
qed

section \<open>Data frames\<close>

lemma cell_of_Nil [simp]: "cell_of [] vs c = None" "cell_of cols [] c = None"
  by (simp_all add: cell_of_def)

lemma cell_of_Cons: "cell_of (x # cols) (v # vs) c = (if c = x then v else cell_of cols vs c)"
  by (simp add: cell_of_def)

lemma cell_of_absent: "c \<notin> set cols \<Longrightarrow> cell_of cols vs c = None"
proof -
  assume a: "c \<notin> set cols"
  have "c \<notin> fst ` set (zip cols vs)"
  proof
    assume "c \<in> fst ` set (zip cols vs)"
    then obtain v where "(c, v) \<in> set (zip cols vs)" by auto
    then have "c \<in> set cols" by (rule in_set_zipE)
    then show False using a by simp
  qed
  then have "map_of (zip cols vs) c = None" by (simp add: map_of_eq_None_iff)
  then show ?thesis by (simp add: cell_of_def)
qed

lemma cell_of_present:
  "length vs = length cols \<Longrightarrow> c \<in> set cols \<Longrightarrow> None \<notin> set vs \<Longrightarrow> cell_of cols vs c \<noteq> None"
proof (induction cols arbitrary: vs)
  case Nil
  then show ?case by simp
next
  case (Cons x cols)
  then obtain v ws where vs: "vs = v # ws" by (cases vs) auto
  have v: "v \<noteq> None" using Cons.prems(3) vs by (cases v) auto
  show ?case
  proof (cases "c = x")
    case True
    then show ?thesis using vs v by (simp add: cell_of_Cons)
  next
    case False
    then have "cell_of cols ws c \<noteq> None" using Cons vs by auto
    then show ?thesis using vs False by (simp add: cell_of_Cons)
  qed
qed

lemma cell_of_set_at:
  "length vs = length cols \<Longrightarrow>
   cell_of cols (set_at cols col v vs) c = (if c = col \<and> col \<in> set cols then v else cell_of cols vs c)"
proof (induction cols arbitrary: vs)
  case Nil
  then show ?case by (simp add: set_at_def)
next
  case (Cons x cols)
  then obtain w ws where vs: "vs = w # ws" by (cases vs) auto
  have "set_at (x # cols) col v (w # ws) = (if x = col then v else w) # set_at cols col v ws"
    by (simp add: set_at_def)
  then show ?case using Cons vs by (auto simp: cell_of_Cons)
qed

lemma length_set_at: "length vs = length cols \<Longrightarrow> length (set_at cols col v vs) = length cols"
  by (simp add: set_at_def)

lemma cell_of_snoc:
  "length vs = length cols \<Longrightarrow>
   cell_of (cols @ [col]) (vs @ [v]) c = (if c \<in> set cols then cell_of cols vs c else if c = col then v else None)"
proof (induction cols arbitrary: vs)
  case Nil
  then show ?case by (simp add: cell_of_Cons)
next
  case (Cons x cols)
  then obtain w ws where vs: "vs = w # ws" by (cases vs) auto
  show ?case using Cons vs by (auto simp: cell_of_Cons)
qed


lemma wf_frame_row: "wf_frame f \<Longrightarrow> (l, vs) \<in> set (rows f) \<Longrightarrow> length vs = length (columns f)"
  unfolding wf_frame_def list_all_iff by fast

lemma wf_frameI:
  assumes "\<And>l vs. (l, vs) \<in> set (rows f) \<Longrightarrow> length vs = length (columns f)"
  shows "wf_frame f"
  unfolding wf_frame_def list_all_iff using assms by fast

lemma wf_frame_map:
  assumes "\<And>r. r \<in> set rs \<Longrightarrow> length (snd (g r)) = length cs"
  shows "wf_frame \<lparr>columns = cs, rows = map g rs\<rparr>"
proof (rule wf_frameI)
  fix l vs assume "(l, vs) \<in> set (rows \<lparr>columns = cs, rows = map g rs\<rparr>)"
  then obtain r where "r \<in> set rs" "g r = (l, vs)" by auto
  then show "length vs = length (columns \<lparr>columns = cs, rows = map g rs\<rparr>)"
    using assms [of r] by simp
qed

lemma with_column_columns: "set (columns (with_column m col)) = insert col (set (columns m))"
  by (auto simp: with_column_def)

lemma wf_with_column: "wf_frame m \<Longrightarrow> wf_frame (with_column m col)"
proof (cases "col \<in> set (columns m)")
  case True
  then show "wf_frame m \<Longrightarrow> wf_frame (with_column m col)" by (simp add: with_column_def)
next
  case False
  assume wf: "wf_frame m"
  have "wf_frame \<lparr>columns = columns m @ [col], rows = map (\<lambda>(l, vs). (l, vs @ [None])) (rows m)\<rparr>"
  proof (rule wf_frame_map)
    fix r assume r: "r \<in> set (rows m)"
    obtain l vs where lv: "r = (l, vs)" by (cases r)
    then have "length vs = length (columns m)" using wf r wf_frame_row by blast
    then show "length (snd ((\<lambda>(l, vs). (l, vs @ [None])) r)) = length (columns m @ [col])"
      by (simp add: lv)
  qed
  then show "wf_frame (with_column m col)" using False by (simp add: with_column_def)
qed


lemma with_column_as_map:
  "rows (with_column m col) =
     map (if col \<in> set (columns m) then (\<lambda>r. r) else (\<lambda>(l, vs). (l, vs @ [None]))) (rows m)"
  by (simp add: with_column_def)

lemma with_column_cell:
  assumes "wf_frame m" and "r \<in> set (rows m)"
  shows "cell_of (columns (with_column m col))
           (snd ((if col \<in> set (columns m) then (\<lambda>r. r) else (\<lambda>(l, vs). (l, vs @ [None]))) r)) c
         = cell_of (columns m) (snd r) c"
proof (cases "col \<in> set (columns m)")
  case True
  then show ?thesis by (simp add: with_column_def)
next
  case False
  obtain l vs where lv: "r = (l, vs)" by (cases r)
  then have len: "length vs = length (columns m)" using assms wf_frame_row by blast
  have "cell_of (columns m @ [col]) (vs @ [None]) c = cell_of (columns m) vs c"
    using cell_of_snoc [OF len, of col None c] cell_of_absent [of c "columns m" vs] False
    by (cases "c \<in> set (columns m)") auto
  then show ?thesis using False by (simp add: with_column_def lv)
qed

lemma assign_row_cell:
  assumes "length (snd r) = length cols" and "col \<in> set cols"
  shows "fst (assign_row cols labels col series r) = fst r"
    and "length (snd (assign_row cols labels col series r)) = length cols"
    and "cell_of cols (snd (assign_row cols labels col series r)) c =
           (if c = col \<and> fst r \<in> set labels then series_value series (fst r)
            else cell_of cols (snd r) c)"
  using assms by (simp_all add: assign_row_def length_set_at cell_of_set_at)


lemma loc_set_rows:
  assumes ok: "loc_set m labels col series = Inr m'" and wf: "wf_frame m"
  shows "wf_frame m'"
    and "set (columns m') = insert col (set (columns m))"
    and "set labels \<subseteq> set (index m)"
    and "distinct (map fst series)"
    and "\<exists>h. rows m' = map h (rows m) \<and>
           (\<forall>r\<in>set (rows m). fst (h r) = fst r \<and>
              (\<forall>c. cell_of (columns m') (snd (h r)) c =
                     (if c = col \<and> fst r \<in> set labels then series_value series (fst r)
                      else cell_of (columns m) (snd r) c)))"
proof -
  define m1 where "m1 = with_column m col"
  define w :: "string \<times> cell option list \<Rightarrow> string \<times> cell option list"
    where "w = (if col \<in> set (columns m) then (\<lambda>r. r) else (\<lambda>(l, vs). (l, vs @ [None])))"
  define g where "g = assign_row (columns m1) labels col series"
  have nil: "filter (\<lambda>l. l \<notin> set (index m)) labels = []"
    using ok by (simp add: loc_set_def split: list.splits)
  then show "set labels \<subseteq> set (index m)" by (auto simp: filter_empty_conv)
  show d: "distinct (map fst series)"
    using ok nil by (simp add: loc_set_def split: if_splits)
  have m': "m' = \<lparr>columns = columns m1, rows = map g (rows m1)\<rparr>"
    using ok nil d by (simp add: loc_set_def m1_def g_def)
  have in1: "col \<in> set (columns m1)" by (simp add: m1_def with_column_columns)
  have wf1: "wf_frame m1" using wf by (simp add: m1_def wf_with_column)
  have rows1: "rows m1 = map w (rows m)" by (simp add: m1_def w_def with_column_as_map)
  have len1: "length (snd r1) = length (columns m1)" if "r1 \<in> set (rows m1)" for r1
    using wf1 that wf_frame_row [of m1 "fst r1" "snd r1"] by simp
  show "wf_frame m'" unfolding m'
    by (rule wf_frame_map) (simp add: g_def assign_row_cell(2) [OF len1 in1])
  show "set (columns m') = insert col (set (columns m))"
    by (simp add: m' m1_def with_column_columns)
  have rows': "rows m' = map (g \<circ> w) (rows m)" by (simp add: m' rows1)
  have "fst ((g \<circ> w) r) = fst r \<and>
          (\<forall>c. cell_of (columns m') (snd ((g \<circ> w) r)) c =
                 (if c = col \<and> fst r \<in> set labels then series_value series (fst r)
                  else cell_of (columns m) (snd r) c))" if r: "r \<in> set (rows m)" for r
  proof -
    have r1: "w r \<in> set (rows m1)" using r rows1 by simp
    have f: "fst (w r) = fst r" by (cases r) (simp add: w_def)
    have c1: "cell_of (columns m1) (snd (w r)) c = cell_of (columns m) (snd r) c" for c
      using with_column_cell [OF wf r, of col c] by (simp add: m1_def w_def)
    show ?thesis
      using assign_row_cell [OF len1 [OF r1] in1, of labels series] f c1
      by (simp add: g_def m')
  qed
  then show "\<exists>h. rows m' = map h (rows m) \<and>
           (\<forall>r\<in>set (rows m). fst (h r) = fst r \<and>
              (\<forall>c. cell_of (columns m') (snd (h r)) c =
                     (if c = col \<and> fst r \<in> set labels then series_value series (fst r)
                      else cell_of (columns m) (snd r) c)))"
    using rows' by blast
qed

lemma loc_set_index: "loc_set m labels col series = Inr m' \<Longrightarrow> wf_frame m \<Longrightarrow> index m' = index m"
proof -
  assume a: "loc_set m labels col series = Inr m'" "wf_frame m"
  from loc_set_rows(5) [OF a] obtain h where
    h: "rows m' = map h (rows m)" "\<forall>r\<in>set (rows m). fst (h r) = fst r" by blast
  show ?thesis unfolding index_def h(1) using h(2) by (simp add: map_idI)
qed


lemma no_missing: "list_all (\<lambda>v. v \<noteq> None) vs \<longleftrightarrow> None \<notin> set vs"
proof (induction vs)
  case Nil
  show ?case by simp
next
  case (Cons a vs)
  have "(a \<noteq> None) = (None \<noteq> a)" by (rule arg_cong [where f = Not]) (rule eq_commute)
  then show ?case using Cons by (simp del: not_None_eq)
qed

lemma dropna_rows:
  "(l, vs) \<in> set (rows (dropna f)) \<longleftrightarrow> (l, vs) \<in> set (rows f) \<and> None \<notin> set vs"
  using no_missing [of vs] by (simp add: dropna_def)

lemma dropna_columns: "columns (dropna f) = columns f"
  by (simp add: dropna_def)

lemma index_dropna:
  "set (index (dropna f)) = {l. \<exists>vs. (l, vs) \<in> set (rows f) \<and> None \<notin> set vs}"
proof -
  have "set (index (dropna f)) = fst ` set (rows (dropna f))" by (simp add: index_def)
  also have "\<dots> = {l. \<exists>vs. (l, vs) \<in> set (rows (dropna f))}" by force
  finally show ?thesis by (simp add: dropna_rows)
qed

lemma index_mean_axis1: "map fst (mean_axis1 f) = index f"
  by (simp add: mean_axis1_def index_def case_prod_unfold)

lemma map_of_mean_axis1:
  "map_of (mean_axis1 f) l = map_option row_mean (map_of (rows f) l)"
  unfolding mean_axis1_def by (induction "rows f" arbitrary: f) (auto simp: map_of_map)

section \<open>The alpha diversity loop\<close>

lemma concat_axis1_index:
  assumes "concat_axis1 fs = Inr f"
  shows "set (index f) = (\<Union>g\<in>set fs. set (index g))"
proof (cases fs)
  case Nil
  then show ?thesis using assms by (simp add: concat_axis1_def)
next
  case (Cons f0 gs)
  show ?thesis
  proof (cases "list_all (\<lambda>g. index g = index f0) gs")
    case True
    then have same: "\<And>g. g \<in> set fs \<Longrightarrow> index g = index f0"
      using Cons by (auto simp: list_all_iff)
    define xs where "xs = index f0"
    have "rows f = map (\<lambda>i. (xs ! i, concat (map (\<lambda>g. snd (rows g ! i)) fs))) [0 ..< length xs]"
      using assms Cons True by (auto simp: concat_axis1_def xs_def)
    then have "map fst (rows f) = map (\<lambda>i. xs ! i) [0 ..< length xs]"
      by (simp only: map_map comp_def fst_conv)
    then have "map fst (rows f) = xs" by (simp only: map_nth)
    then have "index f = index f0" by (simp add: index_def xs_def)
    moreover have "(\<Union>g\<in>set fs. set (index g)) = set (index f0)"
    proof -
      have "f0 \<in> set fs" using Cons by simp
      moreover have "\<And>g. g \<in> set fs \<Longrightarrow> set (index g) = set (index f0)"
        by (drule same) (erule arg_cong)
      ultimately show ?thesis by blast
    qed
    ultimately show ?thesis by simp
  next
    case False
    define ys where "ys = sort (remdups (concat (map index fs)))"
    have "rows f = map (\<lambda>l. (l, concat (map (\<lambda>g. row_or_nan g l) fs))) ys"
      using assms Cons False by (auto simp: concat_axis1_def ys_def split: if_splits)
    then have "map fst (rows f) = map (\<lambda>l. l) ys"
      by (simp only: map_map comp_def fst_conv)
    then have "index f = sort (remdups (concat (map index fs)))"
      by (simp add: index_def ys_def)
    then show ?thesis by simp
  qed
qed

lemma metric_step_result:
  assumes "metric_step depth metric (mv, collated, fs) = Inr (mv', collated', fs')"
  shows "\<exists>m m' alpha_list alpha_var.
           mv = Some m \<and> mv' = Some m'
           \<and> alpha_iterations depth metric [0 ..< 10] [] fs = Inr (alpha_list, fs')
           \<and> concat_axis1 alpha_list = Inr alpha_var
           \<and> collated' = collated @ [alpha_var]
           \<and> loc_set m (index alpha_var) (mean_column metric depth) (mean_axis1 alpha_var) = Inr m'"
  using assms
  by (auto simp: metric_step_def split: sum.splits option.splits prod.splits)

lemma alpha_dir_not_packaged:
  "\<not> inside (alpha_dir depth metric) (''03.packaged'' # r)"
  "\<not> inside (''03.packaged'' # r) (alpha_dir depth metric)"
  by (simp_all add: inside_def alpha_dir_def)

lemma alpha_iteration_frame:
  assumes "alpha_iteration depth metric i fs = Inr (fr, fs')"
  shows "map_of fs' (''03.packaged'' # r) = map_of fs (''03.packaged'' # r)"
proof -
  have "fs' = qiime_tools_export fs (alpha_artifact depth metric i) (alpha_dir depth metric)"
    using assms by (auto simp: alpha_iteration_def Let_def split: sum.splits)
  then show ?thesis by (simp add: export_frame alpha_dir_not_packaged)
qed

lemma alpha_iterations_frame:
  "alpha_iterations depth metric js acc fs = Inr (frs, fs')
     \<Longrightarrow> map_of fs' (''03.packaged'' # r) = map_of fs (''03.packaged'' # r)"
proof (induction js arbitrary: acc fs)
  case Nil
  then show ?case by simp
next
  case (Cons i js)
  from Cons.prems obtain fr fs1 where
    one: "alpha_iteration depth metric i fs = Inr (fr, fs1)"
    and rest: "alpha_iterations depth metric js (acc @ [fr]) fs1 = Inr (frs, fs')"
    by (auto split: sum.splits)
  show ?case using Cons.IH [OF rest] alpha_iteration_frame [OF one] by simp
qed

lemma metric_loop_result:
  assumes "metric_loop depth ms (Some m, collated, fs) = Inr (mv', collated', fs')" and "wf_frame m"
  shows "\<exists>m' alphas h.
           mv' = Some m' \<and> wf_frame m' \<and> collated' = collated @ alphas
           \<and> set (columns m) \<subseteq> set (columns m')
           \<and> rows m' = map h (rows m)
           \<and> (\<forall>r\<in>set (rows m). fst (h r) = fst r \<and>
                 (\<forall>c. c \<notin> (\<lambda>mt. mean_column mt depth) ` set ms \<longrightarrow>
                    cell_of (columns m') (snd (h r)) c = cell_of (columns m) (snd r) c))
           \<and> (\<forall>r. map_of fs' (''03.packaged'' # r) = map_of fs (''03.packaged'' # r))"
  using assms
proof (induction ms arbitrary: m collated fs)
  case Nil
  then have e: "mv' = Some m" "collated' = collated" "fs' = fs" by simp_all
  show ?case
    by (rule exI [of _ m], rule exI [of _ "[]"], rule exI [of _ "\<lambda>r. r"])
       (simp add: e Nil.prems(2))
next
  case (Cons mt ms)
  from Cons.prems(1) obtain mv1 coll1 fs1 where
    step: "metric_step depth mt (Some m, collated, fs) = Inr (mv1, coll1, fs1)"
    and rest: "metric_loop depth ms (mv1, coll1, fs1) = Inr (mv', collated', fs')"
    by (auto split: sum.splits)
  from metric_step_result [OF step] obtain m1 alpha_list alpha_var where
    s: "mv1 = Some m1" "alpha_iterations depth mt [0 ..< 10] [] fs = Inr (alpha_list, fs1)"
       "coll1 = collated @ [alpha_var]"
       "loc_set m (index alpha_var) (mean_column mt depth) (mean_axis1 alpha_var) = Inr m1"
    by auto
  note ls = loc_set_rows [OF s(4) Cons.prems(2)]
  from ls(5) obtain h1 where
    h1: "rows m1 = map h1 (rows m)"
        "\<forall>r\<in>set (rows m). fst (h1 r) = fst r \<and>
              (\<forall>c. cell_of (columns m1) (snd (h1 r)) c =
                     (if c = mean_column mt depth \<and> fst r \<in> set (index alpha_var)
                      then series_value (mean_axis1 alpha_var) (fst r)
                      else cell_of (columns m) (snd r) c))"
    by blast
  from Cons.IH [OF rest [unfolded s(1)] ls(1)] obtain m' alphas h where
    ih: "mv' = Some m'" "wf_frame m'" "collated' = coll1 @ alphas"
        "set (columns m1) \<subseteq> set (columns m')"
        "rows m' = map h (rows m1)"
        "\<forall>r\<in>set (rows m1). fst (h r) = fst r \<and>
                 (\<forall>c. c \<notin> (\<lambda>mt. mean_column mt depth) ` set ms \<longrightarrow>
                    cell_of (columns m') (snd (h r)) c = cell_of (columns m1) (snd r) c)"
        "\<forall>r. map_of fs' (''03.packaged'' # r) = map_of fs1 (''03.packaged'' # r)"
    by blast
  have rows: "rows m' = map (h \<circ> h1) (rows m)" using ih(5) h1(1) by simp
  have cells: "fst ((h \<circ> h1) r) = fst r \<and>
                 (\<forall>c. c \<notin> (\<lambda>mt. mean_column mt depth) ` set (mt # ms) \<longrightarrow>
                    cell_of (columns m') (snd ((h \<circ> h1) r)) c = cell_of (columns m) (snd r) c)"
    if r: "r \<in> set (rows m)" for r
  proof -
    have r1: "h1 r \<in> set (rows m1)" using r h1(1) by simp
    show ?thesis using h1(2) r ih(6) r1 by auto
  qed
  have fr: "\<forall>r. map_of fs' (''03.packaged'' # r) = map_of fs (''03.packaged'' # r)"
    using ih(7) alpha_iterations_frame [OF s(2)] by simp
  have cols: "set (columns m) \<subseteq> set (columns m')" using ls(2) ih(4) by auto
  have coll: "collated' = collated @ (alpha_var # alphas)" using ih(3) s(3) by simp
  show ?case using ih(1,2) coll cols rows cells fr by blast
qed

lemma packaged_names:
  "packaged d a = packaged d' b \<longleftrightarrow> d = d' \<and> a = b"
  "packaged d a = ''03.packaged'' # [d, a]"
  by (simp_all add: packaged_def)

lemma depth_step_result:
  assumes "depth_step depth (mv, sample_ids, fs) = Inr (mv', sample_ids', fs')"
  shows "\<exists>m collated_list collated fs1.
           metric_loop depth [''observed_otus'', ''faiths_pd'', ''shannon''] (mv, [], fs)
             = Inr (Some m, collated_list, fs1)
           \<and> concat_axis1 collated_list = Inr collated
           \<and> mv' = Some m \<and> sample_ids' = (depth, index collated) # sample_ids
           \<and> is_dir fs1 [''03.packaged'', depth]
           \<and> (\<forall>q. map_of fs' q =
                 (if q = packaged depth ''sample_id.txt''
                    then Some (File (Text (join [CHR 0x0A] (index collated))))
                  else if q = packaged depth ''ag_map_with_alpha.txt''
                    then Some (File (MapCsv ''#SampleID'' (dropna m)))
                  else if q = packaged depth ''collated_alpha.txt''
                    then Some (File (FloatCsv ''#SampleID'' collated))
                  else map_of fs1 q))"
proof -
  from assms obtain map1 collated_list fs1 where
    ml: "metric_loop depth [''observed_otus'', ''faiths_pd'', ''shannon''] (mv, [], fs)
           = Inr (map1, collated_list, fs1)"
    by (auto simp: depth_step_def split: sum.splits)
  from assms ml obtain collated where cc: "concat_axis1 collated_list = Inr collated"
    by (auto simp: depth_step_def split: sum.splits)
  from assms ml cc obtain fs2 where
    w1: "write_file fs1 (packaged depth ''collated_alpha.txt'') (FloatCsv ''#SampleID'' collated) = Inr fs2"
    by (auto simp: depth_step_def split: sum.splits)
  from assms ml cc w1 obtain m where m: "map1 = Some m"
    by (auto simp: depth_step_def split: option.splits)
  from assms ml cc w1 m obtain fs3 where
    w2: "write_file fs2 (packaged depth ''ag_map_with_alpha.txt'') (MapCsv ''#SampleID'' (dropna m)) = Inr fs3"
    by (auto simp: depth_step_def split: sum.splits)
  from assms ml cc w1 m w2 have
    w3: "write_file fs3 (packaged depth ''sample_id.txt'') (Text (join [CHR 0x0A] (index collated))) = Inr fs'"
    and r: "mv' = Some m" "sample_ids' = (depth, index collated) # sample_ids"
    by (auto simp: depth_step_def split: sum.splits)
  have d: "is_dir fs1 [''03.packaged'', depth]"
    using w1 by (auto simp: write_file_def packaged_def split: if_splits)
  have "map_of fs' q =
                 (if q = packaged depth ''sample_id.txt''
                    then Some (File (Text (join [CHR 0x0A] (index collated))))
                  else if q = packaged depth ''ag_map_with_alpha.txt''
                    then Some (File (MapCsv ''#SampleID'' (dropna m)))
                  else if q = packaged depth ''collated_alpha.txt''
                    then Some (File (FloatCsv ''#SampleID'' collated))
                  else map_of fs1 q)" for q
    using write_file_lookup [OF w1, of q] write_file_lookup [OF w2, of q]
      write_file_lookup [OF w3, of q]
    by simp
  then show ?thesis using ml cc m r d by blast
qed

lemma metric_step_frame:
  assumes "metric_step depth metric (mv, collated, fs) = Inr (mv', collated', fs')"
  shows "map_of fs' (''03.packaged'' # r) = map_of fs (''03.packaged'' # r)"
proof -
  from metric_step_result [OF assms] obtain alpha_list where
    "alpha_iterations depth metric [0 ..< 10] [] fs = Inr (alpha_list, fs')" by blast
  then show ?thesis by (rule alpha_iterations_frame)
qed

lemma metric_loop_frame:
  "metric_loop depth ms (mv, collated, fs) = Inr (mv', collated', fs')
     \<Longrightarrow> map_of fs' (''03.packaged'' # r) = map_of fs (''03.packaged'' # r)"
proof (induction ms arbitrary: mv collated fs)
  case Nil
  then show ?case by simp
next
  case (Cons mt ms)
  from Cons.prems obtain mv1 coll1 fs1 where
    step: "metric_step depth mt (mv, collated, fs) = Inr (mv1, coll1, fs1)"
    and rest: "metric_loop depth ms (mv1, coll1, fs1) = Inr (mv', collated', fs')"
    by (auto split: sum.splits)
  show ?case using Cons.IH [OF rest] metric_step_frame [OF step] by simp
qed

lemma depth_step_frame:
  assumes "depth_step depth (mv, sample_ids, fs) = Inr (mv', sample_ids', fs')"
    and "d \<noteq> depth"
  shows "map_of fs' (packaged d name) = map_of fs (packaged d name)"
    and "map_of sample_ids' d = map_of sample_ids d"
proof -
  from depth_step_result [OF assms(1)] obtain m collated_list collated fs1 where
    ml: "metric_loop depth [''observed_otus'', ''faiths_pd'', ''shannon''] (mv, [], fs)
             = Inr (Some m, collated_list, fs1)"
    and s: "sample_ids' = (depth, index collated) # sample_ids"
    and l: "\<And>q. map_of fs' q =
                 (if q = packaged depth ''sample_id.txt''
                    then Some (File (Text (join [CHR 0x0A] (index collated))))
                  else if q = packaged depth ''ag_map_with_alpha.txt''
                    then Some (File (MapCsv ''#SampleID'' (dropna m)))
                  else if q = packaged depth ''collated_alpha.txt''
                    then Some (File (FloatCsv ''#SampleID'' collated))
                  else map_of fs1 q)"
    by blast
  have "map_of fs' (packaged d name) = map_of fs1 (packaged d name)"
    using l [of "packaged d name"] assms(2) by (simp add: packaged_names(1))
  also have "\<dots> = map_of fs (packaged d name)"
    using metric_loop_frame [OF ml] by (simp add: packaged_names(2))
  finally show "map_of fs' (packaged d name) = map_of fs (packaged d name)" .
  show "map_of sample_ids' d = map_of sample_ids d" using s assms(2) by simp
qed

lemma depth_loop_frame:
  "depth_loop ds (mv, sample_ids, fs) = Inr (mv', sample_ids', fs') \<Longrightarrow> d \<notin> set ds
     \<Longrightarrow> map_of fs' (packaged d name) = map_of fs (packaged d name)
         \<and> map_of sample_ids' d = map_of sample_ids d"
proof (induction ds arbitrary: mv sample_ids fs)
  case Nil
  then show ?case by simp
next
  case (Cons d0 ds)
  from Cons.prems(1) obtain mv1 s1 fs1 where
    step: "depth_step d0 (mv, sample_ids, fs) = Inr (mv1, s1, fs1)"
    and rest: "depth_loop ds (mv1, s1, fs1) = Inr (mv', sample_ids', fs')"
    by (auto split: sum.splits)
  have ne: "d \<noteq> d0" and nin: "d \<notin> set ds" using Cons.prems(2) by auto
  show ?case using Cons.IH [OF rest nin] depth_step_frame [OF step ne] by simp
qed

lemma depth_loop_files:
  assumes "depth_loop ds (mv, sample_ids, fs) = Inr (mv', sample_ids', fs')" and "d \<in> set ds"
  shows "\<exists>collated.
           map_of fs' (packaged d ''collated_alpha.txt'') = Some (File (FloatCsv ''#SampleID'' collated))
         \<and> map_of fs' (packaged d ''sample_id.txt'')
               = Some (File (Text (join [CHR 0x0A] (index collated))))
         \<and> map_of sample_ids' d = Some (index collated)"
  using assms
proof (induction ds arbitrary: mv sample_ids fs)
  case Nil
  then show ?case by simp
next
  case (Cons d0 ds)
  from Cons.prems(1) obtain mv1 s1 fs1 where
    step: "depth_step d0 (mv, sample_ids, fs) = Inr (mv1, s1, fs1)"
    and rest: "depth_loop ds (mv1, s1, fs1) = Inr (mv', sample_ids', fs')"
    by (auto split: sum.splits)
  show ?case
  proof (cases "d \<in> set ds")
    case True
    then show ?thesis using Cons.IH [OF rest] by simp
  next
    case False
    then have d: "d = d0" using Cons.prems(2) by simp
    from depth_step_result [OF step] obtain m collated fs0 where
      s: "s1 = (d0, index collated) # sample_ids"
      and l: "\<And>q. map_of fs1 q =
                 (if q = packaged d0 ''sample_id.txt''
                    then Some (File (Text (join [CHR 0x0A] (index collated))))
                  else if q = packaged d0 ''ag_map_with_alpha.txt''
                    then Some (File (MapCsv ''#SampleID'' (dropna m)))
                  else if q = packaged d0 ''collated_alpha.txt''
                    then Some (File (FloatCsv ''#SampleID'' collated))
                  else map_of fs0 q)"
      by blast
    have a: "map_of fs1 (packaged d ''collated_alpha.txt'') = Some (File (FloatCsv ''#SampleID'' collated))"
      using l [of "packaged d ''collated_alpha.txt''"] d by (simp add: packaged_names(1))
    have b: "map_of fs1 (packaged d ''sample_id.txt'')
               = Some (File (Text (join [CHR 0x0A] (index collated))))"
      using l [of "packaged d ''sample_id.txt''"] d by (simp add: packaged_names(1))
    have c: "map_of s1 d = Some (index collated)" using s d by simp
    show ?thesis using depth_loop_frame [OF rest False] a b c by auto
  qed
qed

lemma split_lines_append:
  "CHR 0x0A \<notin> set s \<Longrightarrow> split_lines cur (s @ r) = split_lines (cur @ s) r"
  by (induction s arbitrary: cur) auto

lemma split_lines_join:
  "\<forall>s\<in>set (x # xs). s \<noteq> [] \<and> CHR 0x0A \<notin> set s
     \<Longrightarrow> split_lines [] (join [CHR 0x0A] (x # xs)) = x # xs"
proof (induction xs arbitrary: x)
  case Nil
  then show ?case using split_lines_append [of x "[]" "[]"] by simp
next
  case (Cons y ys)
  have "split_lines [] (x @ CHR 0x0A # join [CHR 0x0A] (y # ys))
          = x # split_lines [] (join [CHR 0x0A] (y # ys))"
    using split_lines_append [of x "[]" "CHR 0x0A # join [CHR 0x0A] (y # ys)"] Cons.prems by simp
  moreover have "split_lines [] (join [CHR 0x0A] (y # ys)) = y # ys"
    using Cons.IH [of y] Cons.prems by simp
  ultimately show ?case by simp
qed

lemma file_lines_join:
  assumes "\<forall>s\<in>set xs. s \<noteq> [] \<and> CHR 0x0A \<notin> set s"
  shows "file_lines (join [CHR 0x0A] xs) = xs"
proof (cases xs)
  case Nil
  then show ?thesis by (simp add: file_lines_def)
next
  case (Cons x ys)
  then show ?thesis using split_lines_join [of x ys] assms by (simp add: file_lines_def)
qed

section \<open>A run of the alpha diversity loop\<close>

lemma show_nat_digit: "i < 10 \<Longrightarrow> show_nat i = [char_of (48 + i)]"
  by simp

lemma show_nat_inj: "i < 10 \<Longrightarrow> j < 10 \<Longrightarrow> show_nat i = show_nat j \<Longrightarrow> i = j"
proof -
  assume a: "i < 10" "j < 10" "show_nat i = show_nat j"
  then have "char_of (48 + i) = (char_of (48 + j) :: char)" by (simp add: show_nat_digit)
  then have "(48 + i) mod 256 = (48 + j) mod 256" by (simp only: char_of_eq_iff take_bit_eq_mod) simp
  then show "i = j" using a(1,2) by simp
qed

lemma alpha_artifact_inj:
  assumes "metric \<in> set [''observed_otus'', ''faiths_pd'', ''shannon'']"
    and "metric' \<in> set [''observed_otus'', ''faiths_pd'', ''shannon'']"
    and "i < 10" and "j < 10"
    and eq: "alpha_artifact depth metric i = alpha_artifact depth metric' j"
  shows "metric = metric' \<and> i = j"
proof -
  have e: "metric @ ''_r'' @ show_nat i @ ''.qza'' = metric' @ ''_r'' @ show_nat j @ ''.qza''"
    using eq by (simp add: alpha_artifact_def del: show_nat.simps)
  then have "length (metric @ ''_r'' @ show_nat i @ ''.qza'') = length (metric' @ ''_r'' @ show_nat j @ ''.qza'')"
    by (rule arg_cong)
  then have "length metric = length metric'"
    using assms(3,4) by (simp add: show_nat_digit del: show_nat.simps)
  then have m: "metric = metric'" using assms(1,2) by auto
  then have "show_nat i = show_nat j" using e by (simp del: show_nat.simps)
  then show ?thesis using m show_nat_inj assms(3,4) by blast
qed

lemma map_of_inj_map:
  "inj_on k (set xs) \<Longrightarrow> x \<in> set xs \<Longrightarrow> map_of (map (\<lambda>y. (k y, v y)) xs) (k x) = Some (v x)"
proof (induction xs)
  case Nil
  then show ?case by simp
next
  case (Cons y ys)
  show ?case
  proof (cases "k x = k y")
    case True
    then have "x = y" using Cons.prems by (meson inj_onD list.set_intros(1))
    then show ?thesis by simp
  next
    case False
    then have "x \<in> set ys" using Cons.prems(2) by auto
    moreover have "inj_on k (set ys)" using Cons.prems(1) by (simp add: inj_on_def)
    ultimately show ?thesis using Cons.IH False by simp
  qed
qed

lemma alpha_qzas_lookup:
  assumes "metric \<in> set [''observed_otus'', ''faiths_pd'', ''shannon'']" and "i < 10"
  shows "map_of demo_fs (alpha_artifact ''1250'' metric i) = Some (alpha_qza metric i)"
proof -
  let ?P = "List.product [''observed_otus'', ''faiths_pd'', ''shannon''] [0 ..< 10 :: nat]"
  have P: "set ?P = set [''observed_otus'', ''faiths_pd'', ''shannon''] \<times> {0 ..< 10}"
    by (simp only: set_product set_upt)
  have inj: "inj_on (\<lambda>(m, i). alpha_artifact ''1250'' m i) (set ?P)"
  proof (rule inj_onI)
    fix a b
    assume a: "a \<in> set ?P" and b: "b \<in> set ?P"
      and eq: "(case a of (m, i) \<Rightarrow> alpha_artifact ''1250'' m i)
                 = (case b of (m, i) \<Rightarrow> alpha_artifact ''1250'' m i)"
    obtain m i' where ab: "a = (m, i')" by (cases a)
    obtain m' j where bb: "b = (m', j)" by (cases b)
    have ma: "m \<in> set [''observed_otus'', ''faiths_pd'', ''shannon'']" "i' < 10"
      using a unfolding P ab by (simp_all only: mem_Times_iff fst_conv snd_conv atLeastLessThan_iff)
    have mb: "m' \<in> set [''observed_otus'', ''faiths_pd'', ''shannon'']" "j < 10"
      using b unfolding P bb by (simp_all only: mem_Times_iff fst_conv snd_conv atLeastLessThan_iff)
    have "alpha_artifact ''1250'' m i' = alpha_artifact ''1250'' m' j"
      using eq unfolding ab bb by (simp only: prod.case)
    then have "m = m' \<and> i' = j" by (rule alpha_artifact_inj [OF ma(1) mb(1) ma(2) mb(2)])
    then show "a = b" by (simp add: ab bb)
  qed
  have mem: "(metric, i) \<in> set ?P"
    unfolding P using assms by (simp only: mem_Times_iff fst_conv snd_conv atLeastLessThan_iff) simp
  have "map_of (alpha_qzas ''1250'') (alpha_artifact ''1250'' metric i) = Some (alpha_qza metric i)"
    using map_of_inj_map [OF inj mem, of "\<lambda>(m, i). alpha_qza m i"]
    by (simp add: alpha_qzas_def case_prod_unfold)
  moreover have "map_of demo_dirs (alpha_artifact ''1250'' metric i) = None"
    by (simp add: demo_dirs_def alpha_artifact_def del: show_nat.simps)
  moreover have "map_of demo_fs (alpha_artifact ''1250'' metric i)
      = (map_of (alpha_qzas ''1250'') ++ map_of demo_dirs) (alpha_artifact ''1250'' metric i)"
    by (simp only: demo_fs_def map_of_append)
  ultimately show ?thesis by (simp only: map_add_def option.case)
qed

lemma map_of_other_length:
  "\<forall>p\<in>fst ` set xs. length p \<noteq> length k \<Longrightarrow> map_of xs k = None"
  by (induction xs) auto

lemma alpha_qzas_keys: "p \<in> fst ` set (alpha_qzas depth) \<Longrightarrow> length p = 4"
  by (auto simp: alpha_qzas_def alpha_paths simp del: show_nat.simps)

lemma show_nat_nonempty: "show_nat n \<noteq> []"
  by (subst show_nat.simps) simp

lemma artifact_not_dir:
  assumes "metric \<in> set [''observed_otus'', ''faiths_pd'', ''shannon'']"
    and "metric' \<in> set [''observed_otus'', ''faiths_pd'', ''shannon'']"
  shows "alpha_artifact depth metric i \<noteq> alpha_dir depth metric'"
proof
  assume "alpha_artifact depth metric i = alpha_dir depth metric'"
  then have "metric @ ''_r'' @ show_nat i @ ''.qza'' = metric'"
    by (simp add: alpha_artifact_def alpha_dir_def del: show_nat.simps)
  then have "length (metric @ ''_r'' @ show_nat i @ ''.qza'') = length metric'"
    by (rule arg_cong)
  then have "length metric + 6 + length (show_nat i) = length metric'"
    by (simp del: show_nat.simps)
  moreover have "0 < length (show_nat i)" using show_nat_nonempty [of i] by blast
  ultimately show False using assms by (auto simp del: show_nat.simps)
qed

lemma outside_alpha_apart:
  assumes "outside_alpha q"
  shows "\<not> inside (alpha_dir depth metric) q" "\<not> inside q (alpha_dir depth metric)"
proof -
  show "\<not> inside (alpha_dir depth metric) q"
  proof
    assume "inside (alpha_dir depth metric) q"
    then have "take 4 q = alpha_dir depth metric" by (simp add: inside_def alpha_paths)
    then have "take 2 (take 4 q) = take 2 (alpha_dir depth metric)" by (rule arg_cong)
    then have "take 2 q = [''02.build_package'', ''03.alpha'']" by (simp add: alpha_dir_def)
    then show False using assms by (simp add: outside_alpha_def)
  qed
  show "\<not> inside q (alpha_dir depth metric)"
  proof
    assume a: "inside q (alpha_dir depth metric)"
    then have e: "q = take (length q) (alpha_dir depth metric)" by (rule inside_is_take)
    have "length q = 0 \<or> length q = 1 \<or> 2 \<le> length q" by linarith
    then show False
    proof (elim disjE)
      assume "length q = 0" then show False using assms by (simp add: outside_alpha_def)
    next
      assume "length q = 1"
      then have "q = [''02.build_package'']" using e by (simp add: alpha_dir_def)
      then show False using assms by (simp add: outside_alpha_def)
    next
      assume l: "2 \<le> length q"
      have "take 2 q = take 2 (take (length q) (alpha_dir depth metric))" using e by (rule arg_cong)
      also have "\<dots> = take 2 (alpha_dir depth metric)" using l by (simp add: min_def)
      finally have "take 2 q = [''02.build_package'', ''03.alpha'']" by (simp add: alpha_dir_def)
      then show False using assms by (simp add: outside_alpha_def)
    qed
  qed
qed

lemma metric_cases:
  "metric \<in> set [''observed_otus'', ''faiths_pd'', ''shannon'']
     \<longleftrightarrow> metric = ''observed_otus'' \<or> metric = ''faiths_pd'' \<or> metric = ''shannon''"
  by auto

lemma alpha_dir_inj: "alpha_dir depth metric = alpha_dir depth metric' \<longleftrightarrow> metric = metric'"
  by (simp add: alpha_dir_def)

lemma same_length_inside: "length p = length q \<Longrightarrow> inside p q \<longleftrightarrow> p = q"
  by (auto simp: inside_def)

lemma alpha_dir_prefix:
  assumes "inside q (alpha_dir depth metric)" and "length q < 4"
  shows "inside q (alpha_dir depth metric')"
proof -
  have "q = take (length q) (alpha_dir depth metric)" using assms(1) by (rule inside_is_take)
  also have "\<dots> = take (length q) (alpha_dir depth metric')"
    using assms(2) by (cases "length q"; simp add: alpha_dir_def take_Cons split: nat.splits)
  finally have "q = take (length q) (alpha_dir depth metric')" .
  then show ?thesis using inside_take [of "length q" "alpha_dir depth metric'"] by simp
qed

lemma demo_dirs_lookup:
  "map_of demo_fs q = (case map_of demo_dirs q of None \<Rightarrow> map_of (alpha_qzas ''1250'') q | Some n \<Rightarrow> Some n)"
  by (simp add: demo_fs_def map_add_def)

lemma alpha_qzas_none:
  assumes "\<And>metric i. metric \<in> set [''observed_otus'', ''faiths_pd'', ''shannon''] \<Longrightarrow> q \<noteq> alpha_artifact depth metric i"
  shows "map_of (alpha_qzas depth) q = None"
proof -
  have "q \<notin> fst ` set (alpha_qzas depth)"
  proof
    assume "q \<in> fst ` set (alpha_qzas depth)"
    moreover have "fst ` set (alpha_qzas depth)
        = (\<lambda>e. alpha_artifact depth (fst e) (snd e)) ` set (List.product [''observed_otus'', ''faiths_pd'', ''shannon''] [0 ..< 10 :: nat])"
      unfolding alpha_qzas_def by (simp only: set_map image_image case_prod_unfold fst_conv)
    ultimately obtain e where e: "e \<in> set (List.product [''observed_otus'', ''faiths_pd'', ''shannon''] [0 ..< 10 :: nat])"
      "q = alpha_artifact depth (fst e) (snd e)"
      by blast
    have "e \<in> set [''observed_otus'', ''faiths_pd'', ''shannon''] \<times> set [0 ..< 10 :: nat]"
      using e(1) by (simp only: set_product)
    then have "fst e \<in> set [''observed_otus'', ''faiths_pd'', ''shannon'']"
      by (simp only: mem_Times_iff)
    then show False using assms e(2) by blast
  qed
  then show ?thesis by (simp add: map_of_eq_None_iff)
qed

lemma demo_inv_initial: "demo_inv demo_fs"
  unfolding demo_inv_def
proof (intro conjI ballI allI impI)
  fix metric i assume "metric \<in> set [''observed_otus'', ''faiths_pd'', ''shannon'']" "i < (10::nat)"
  then show "map_of demo_fs (alpha_artifact ''1250'' metric i) = Some (alpha_qza metric i)"
    by (rule alpha_qzas_lookup)
next
  fix metric q c
  assume m: "metric \<in> set [''observed_otus'', ''faiths_pd'', ''shannon'']"
    and q: "q \<noteq> [] \<and> inside q (alpha_dir ''1250'' metric)"
  have len: "length q \<le> 4" using q inside_length [of q "alpha_dir ''1250'' metric"] by (simp add: alpha_paths)
  show "map_of demo_fs q \<noteq> Some (File c)"
  proof (cases "length q = 4")
    case True
    then have e: "q = alpha_dir ''1250'' metric"
      using q same_length_inside [of q "alpha_dir ''1250'' metric"] by (simp add: alpha_paths)
    have "map_of (alpha_qzas ''1250'') q = None"
      unfolding e by (rule alpha_qzas_none) (use m artifact_not_dir in metis)
    moreover have "map_of demo_dirs q = None"
      unfolding e by (simp add: demo_dirs_def alpha_dir_def)
    ultimately show ?thesis by (simp add: demo_dirs_lookup)
  next
    case False
    then have l: "length q < 4" using len by simp
    have "q = take (length q) (alpha_dir ''1250'' metric)" using q inside_is_take by blast
    then have "q = [''02.build_package''] \<or> q = [''02.build_package'', ''03.alpha'']
        \<or> q = [''02.build_package'', ''03.alpha'', ''1250'']"
      using l q by (cases "length q"; simp add: alpha_dir_def take_Cons split: nat.splits)
    then show ?thesis by (auto simp: demo_dirs_lookup demo_dirs_def)
  qed
next
  fix metric
  assume m: "metric \<in> set [''observed_otus'', ''faiths_pd'', ''shannon'']"
  let ?p = "alpha_dir ''1250'' metric @ [''alpha-diversity.tsv'']"
  have "map_of (alpha_qzas ''1250'') ?p = None"
    by (rule map_of_other_length) (simp add: alpha_qzas_keys alpha_paths)
  moreover have "map_of demo_dirs ?p = None" by (simp add: demo_dirs_def alpha_dir_def)
  ultimately show "map_of demo_fs ?p \<noteq> Some Dir" by (simp add: demo_dirs_lookup)
qed

lemma demo_inv_art:
  "demo_inv fs \<Longrightarrow> metric \<in> set [''observed_otus'', ''faiths_pd'', ''shannon''] \<Longrightarrow> i < 10
     \<Longrightarrow> map_of fs (alpha_artifact ''1250'' metric i) = Some (alpha_qza metric i)"
  unfolding demo_inv_def by blast

lemma demo_inv_ready:
  "demo_inv fs \<Longrightarrow> metric \<in> set [''observed_otus'', ''faiths_pd'', ''shannon'']
     \<Longrightarrow> q \<noteq> [] \<Longrightarrow> inside q (alpha_dir ''1250'' metric) \<Longrightarrow> map_of fs q \<noteq> Some (File c)"
  unfolding demo_inv_def by blast

lemma demo_inv_tsv:
  "demo_inv fs \<Longrightarrow> metric \<in> set [''observed_otus'', ''faiths_pd'', ''shannon'']
     \<Longrightarrow> map_of fs (alpha_dir ''1250'' metric @ [''alpha-diversity.tsv'']) \<noteq> Some Dir"
  unfolding demo_inv_def by blast

lemma demo_iterations:
  assumes inv: "demo_inv fs" and m: "metric \<in> set [''observed_otus'', ''faiths_pd'', ''shannon'']"
  shows "\<exists>fs'. alpha_iterations ''1250'' metric [0 ..< 10] [] fs
                 = Inr (map (demo_frame metric) [0 ..< 10], fs')
            \<and> demo_inv fs'
            \<and> (\<forall>q. outside_alpha q \<longrightarrow> map_of fs' q = map_of fs q)"
proof -
  let ?dir = "alpha_dir ''1250'' metric"
  have arts: "\<forall>i\<in>set [0 ..< 10]. map_of fs (alpha_artifact ''1250'' metric i)
                 = Some (File (Qza ((\<lambda>i. ''4f0c'') i) [([''data'', ''alpha-diversity.tsv''], AlphaTsv (demo_alpha metric i))]))
               \<and> value_header (demo_alpha metric i) = metric"
  proof (intro ballI conjI)
    fix i :: nat assume "i \<in> set [0 ..< 10]"
    then have i: "i < 10" by simp
    have "map_of fs (alpha_artifact ''1250'' metric i) = Some (alpha_qza metric i)"
      using inv m i by (rule demo_inv_art)
    then show "map_of fs (alpha_artifact ''1250'' metric i)
                 = Some (File (Qza ''4f0c'' [([''data'', ''alpha-diversity.tsv''], AlphaTsv (demo_alpha metric i))]))"
      by (simp only: alpha_qza_def)
    show "value_header (demo_alpha metric i) = metric" by (simp add: demo_alpha_def)
  qed
  have ready: "\<forall>q c. q \<noteq> [] \<and> inside q ?dir \<longrightarrow> map_of fs q \<noteq> Some (File c)"
    using demo_inv_ready [OF inv m] by blast
  have nd: "map_of fs (?dir @ [''alpha-diversity.tsv'']) \<noteq> Some Dir"
    using inv m by (rule demo_inv_tsv)
  from alpha_iterations_ok [OF m arts ready nd, of "[]"] obtain fs' where
    run: "alpha_iterations ''1250'' metric [0 ..< 10] [] fs
            = Inr ([] @ map (\<lambda>i. \<lparr>columns = [alpha_column metric ''1250'' i],
                               rows = map (\<lambda>(s, v). (s, [v])) (entries (demo_alpha metric i))\<rparr>) [0 ..< 10], fs')"
    and frame: "\<forall>q. \<not> inside ?dir q \<and> \<not> inside q ?dir \<longrightarrow> map_of fs' q = map_of fs q"
    and ready': "\<forall>q c. q \<noteq> [] \<and> inside q ?dir \<longrightarrow> map_of fs' q \<noteq> Some (File c)"
    and nd': "map_of fs' (?dir @ [''alpha-diversity.tsv'']) \<noteq> Some Dir"
    by blast
  have frames: "(\<lambda>i. \<lparr>columns = [alpha_column metric ''1250'' i],
                    rows = map (\<lambda>(s, v). (s, [v])) (entries (demo_alpha metric i))\<rparr>) = demo_frame metric"
    by (rule ext) (simp add: demo_frame_def demo_alpha_def)
  have run': "alpha_iterations ''1250'' metric [0 ..< 10] [] fs = Inr (map (demo_frame metric) [0 ..< 10], fs')"
    using run unfolding frames by (simp only: append_Nil)
  have pk: "\<forall>q. outside_alpha q \<longrightarrow> map_of fs' q = map_of fs q"
    using frame outside_alpha_apart by blast
  have inv': "demo_inv fs'"
    unfolding demo_inv_def
  proof (intro conjI ballI allI impI)
    fix mt i assume mt: "mt \<in> set [''observed_otus'', ''faiths_pd'', ''shannon'']" and i: "i < (10::nat)"
    have ne: "alpha_artifact ''1250'' mt i \<noteq> ?dir" using artifact_not_dir [OF mt m] .
    have "\<not> inside ?dir (alpha_artifact ''1250'' mt i)" "\<not> inside (alpha_artifact ''1250'' mt i) ?dir"
      using ne same_length_inside [of ?dir "alpha_artifact ''1250'' mt i"]
        same_length_inside [of "alpha_artifact ''1250'' mt i" ?dir]
      by (auto simp: alpha_paths)
    then have "map_of fs' (alpha_artifact ''1250'' mt i) = map_of fs (alpha_artifact ''1250'' mt i)"
      using frame by blast
    then show "map_of fs' (alpha_artifact ''1250'' mt i) = Some (alpha_qza mt i)"
      using demo_inv_art [OF inv mt i] by simp
  next
    fix mt q c
    assume mt: "mt \<in> set [''observed_otus'', ''faiths_pd'', ''shannon'']"
      and q: "q \<noteq> [] \<and> inside q (alpha_dir ''1250'' mt)"
    have len: "length q \<le> 4" using q inside_length [of q "alpha_dir ''1250'' mt"] by (simp add: alpha_paths)
    show "map_of fs' q \<noteq> Some (File c)"
    proof (cases "length q = 4")
      case True
      then have e: "q = alpha_dir ''1250'' mt"
        using q same_length_inside [of q "alpha_dir ''1250'' mt"] by (simp add: alpha_paths)
      show ?thesis
      proof (cases "mt = metric")
        case True
        then show ?thesis using ready' q by blast
      next
        case False
        then have "q \<noteq> ?dir" unfolding e by (simp add: alpha_dir_inj)
        then have "\<not> inside ?dir q" "\<not> inside q ?dir"
          using same_length_inside [of ?dir q] same_length_inside [of q ?dir] True
          by (auto simp: alpha_paths)
        then have "map_of fs' q = map_of fs q" using frame by blast
        then show ?thesis using demo_inv_ready [OF inv mt, of q c] q by simp
      qed
    next
      case False
      then have "length q < 4" using len by simp
      then have "inside q ?dir" using q alpha_dir_prefix by blast
      then show ?thesis using ready' q by blast
    qed
  next
    fix mt
    assume mt: "mt \<in> set [''observed_otus'', ''faiths_pd'', ''shannon'']"
    let ?p = "alpha_dir ''1250'' mt @ [''alpha-diversity.tsv'']"
    show "map_of fs' ?p \<noteq> Some Dir"
    proof (cases "mt = metric")
      case True
      then show ?thesis using nd' by simp
    next
      case False
      have a: "\<not> inside ?p ?dir" using inside_length [of ?p ?dir] by (auto simp: alpha_paths)
      have "take (length ?dir) ?p = alpha_dir ''1250'' mt" by (simp add: alpha_paths)
      then have b: "\<not> inside ?dir ?p" using False by (simp add: inside_def alpha_dir_inj)
      have "map_of fs' ?p = map_of fs ?p" using frame a b by blast
      then show ?thesis using demo_inv_tsv [OF inv mt] by simp
    qed
  qed
  show ?thesis using run' inv' pk by blast
qed

lemma upt10: "[0 ..< 10] = [0, 1, 2, 3, 4, 5, 6, 7, 8, 9 :: nat]"
  by code_simp

lemma demo_concat: "concat_axis1 (map (demo_frame metric) [0 ..< 10]) = Inr (demo_alpha_var metric)"
  unfolding demo_alpha_var_def upt10
  by (simp add: concat_axis1_def demo_frame_def index_def del: show_nat.simps)

lemma demo_mean: "mean_axis1 (demo_alpha_var metric) = [(''s1'', Some 10), (''s2'', Some (9 / 2))]"
  unfolding demo_alpha_var_def upt10
  by (simp add: mean_axis1_def row_mean_def present_def del: upt_Suc)

lemma demo_index: "index (demo_alpha_var metric) = [''s1'', ''s2'']"
  by (simp add: demo_alpha_var_def index_def)

lemma demo_map_initial: "demo_map = demo_map_after []"
  by (simp add: demo_map_def demo_map_after_def)

lemma demo_loc_set:
  "loc_set (demo_map_after []) [''s1'', ''s2''] (mean_column ''observed_otus'' ''1250'')
      [(''s1'', Some 10), (''s2'', Some (9 / 2))] = Inr (demo_map_after [''observed_otus''])"
  "loc_set (demo_map_after [''observed_otus'']) [''s1'', ''s2''] (mean_column ''faiths_pd'' ''1250'')
      [(''s1'', Some 10), (''s2'', Some (9 / 2))] = Inr (demo_map_after [''observed_otus'', ''faiths_pd''])"
  "loc_set (demo_map_after [''observed_otus'', ''faiths_pd'']) [''s1'', ''s2''] (mean_column ''shannon'' ''1250'')
      [(''s1'', Some 10), (''s2'', Some (9 / 2))]
     = Inr (demo_map_after [''observed_otus'', ''faiths_pd'', ''shannon''])"
  by (simp_all add: loc_set_def demo_map_after_def index_def with_column_def mean_column_def
      assign_row_def set_at_def series_value_def)

lemma demo_metric_step:
  assumes inv: "demo_inv fs" and m: "metric \<in> set [''observed_otus'', ''faiths_pd'', ''shannon'']"
    and ls: "loc_set mp [''s1'', ''s2''] (mean_column metric ''1250'')
               [(''s1'', Some 10), (''s2'', Some (9 / 2))] = Inr mp'"
  shows "\<exists>fs'. metric_step ''1250'' metric (Some mp, collated, fs)
                 = Inr (Some mp', collated @ [demo_alpha_var metric], fs')
            \<and> demo_inv fs'
            \<and> (\<forall>q. outside_alpha q \<longrightarrow> map_of fs' q = map_of fs q)"
proof -
  from demo_iterations [OF inv m] obtain fs' where
    it: "alpha_iterations ''1250'' metric [0 ..< 10] [] fs = Inr (map (demo_frame metric) [0 ..< 10], fs')"
    and inv': "demo_inv fs'"
    and pk: "\<forall>q. outside_alpha q \<longrightarrow> map_of fs' q = map_of fs q"
    by blast
  have "metric_step ''1250'' metric (Some mp, collated, fs)
          = Inr (Some mp', collated @ [demo_alpha_var metric], fs')"
    unfolding metric_step_def
    by (simp only: prod.case it sum.case demo_concat option.case demo_index demo_mean ls)
  then show ?thesis using inv' pk by blast
qed

lemma demo_metric_loop:
  assumes inv: "demo_inv fs"
  shows "\<exists>fs'. metric_loop ''1250'' [''observed_otus'', ''faiths_pd'', ''shannon''] (Some demo_map, [], fs)
                 = Inr (Some (demo_map_after [''observed_otus'', ''faiths_pd'', ''shannon'']),
                        [demo_alpha_var ''observed_otus'', demo_alpha_var ''faiths_pd'',
                         demo_alpha_var ''shannon''], fs')
            \<and> (\<forall>q. outside_alpha q \<longrightarrow> map_of fs' q = map_of fs q)"
proof -
  from demo_metric_step [OF inv _ demo_loc_set(1), of "[]"] obtain fs1 where
    s1: "metric_step ''1250'' ''observed_otus'' (Some (demo_map_after []), [], fs)
           = Inr (Some (demo_map_after [''observed_otus'']), [] @ [demo_alpha_var ''observed_otus''], fs1)"
    and i1: "demo_inv fs1"
    and p1: "\<forall>q. outside_alpha q \<longrightarrow> map_of fs1 q = map_of fs q"
    by auto
  from demo_metric_step [OF i1 _ demo_loc_set(2), of "[demo_alpha_var ''observed_otus'']"] obtain fs2 where
    s2: "metric_step ''1250'' ''faiths_pd'' (Some (demo_map_after [''observed_otus'']),
             [demo_alpha_var ''observed_otus''], fs1)
           = Inr (Some (demo_map_after [''observed_otus'', ''faiths_pd'']),
                  [demo_alpha_var ''observed_otus''] @ [demo_alpha_var ''faiths_pd''], fs2)"
    and i2: "demo_inv fs2"
    and p2: "\<forall>q. outside_alpha q \<longrightarrow> map_of fs2 q = map_of fs1 q"
    by auto
  from demo_metric_step [OF i2 _ demo_loc_set(3),
      of "[demo_alpha_var ''observed_otus'', demo_alpha_var ''faiths_pd'']"] obtain fs3 where
    s3: "metric_step ''1250'' ''shannon'' (Some (demo_map_after [''observed_otus'', ''faiths_pd'']),
             [demo_alpha_var ''observed_otus'', demo_alpha_var ''faiths_pd''], fs2)
           = Inr (Some (demo_map_after [''observed_otus'', ''faiths_pd'', ''shannon'']),
                  [demo_alpha_var ''observed_otus'', demo_alpha_var ''faiths_pd'']
                    @ [demo_alpha_var ''shannon''], fs3)"
    and p3: "\<forall>q. outside_alpha q \<longrightarrow> map_of fs3 q = map_of fs2 q"
    by auto
  have "metric_loop ''1250'' [''observed_otus'', ''faiths_pd'', ''shannon''] (Some demo_map, [], fs)
                 = Inr (Some (demo_map_after [''observed_otus'', ''faiths_pd'', ''shannon'']),
                        [demo_alpha_var ''observed_otus'', demo_alpha_var ''faiths_pd'',
                         demo_alpha_var ''shannon''], fs3)"
    unfolding demo_map_initial
    by (simp only: metric_loop.simps s1 s2 s3 sum.case append_Nil append_Cons)
  moreover have "\<forall>q. outside_alpha q \<longrightarrow> map_of fs3 q = map_of fs q"
    using p1 p2 p3 by simp
  ultimately show ?thesis by blast
qed

lemma demo_collated_concat:
  "concat_axis1 [demo_alpha_var ''observed_otus'', demo_alpha_var ''faiths_pd'', demo_alpha_var ''shannon'']
     = Inr demo_collated"
  unfolding demo_collated_def demo_alpha_var_def upt10
  by (simp add: concat_axis1_def index_def numeral_3_eq_3 del: show_nat.simps)

lemma demo_collated_index: "index demo_collated = [''s1'', ''s2'']"
  by (simp add: demo_collated_def index_def)

lemma demo_dropna:
  "dropna (demo_map_after [''observed_otus'', ''faiths_pd'', ''shannon''])
     = \<lparr>columns = [''AGE_YEARS'', ''observed_otus_1250'', ''faiths_pd_1250'', ''shannon_1250''],
        rows = [(''s2'', [Some (S ''34''), Some (F (9 / 2)), Some (F (9 / 2)), Some (F (9 / 2))])]\<rparr>"
  by (simp add: dropna_def demo_map_after_def mean_column_def)

lemma demo_packaged_lookup:
  "map_of demo_fs [''03.packaged'', ''1250''] = Some Dir"
  "map_of demo_fs (packaged ''1250'' name) = None"
proof -
  show "map_of demo_fs [''03.packaged'', ''1250''] = Some Dir"
    by (simp add: demo_dirs_lookup demo_dirs_def)
  have "map_of (alpha_qzas ''1250'') (packaged ''1250'' name) = None"
    by (rule map_of_other_length) (simp add: alpha_qzas_keys packaged_def)
  moreover have "map_of demo_dirs (packaged ''1250'' name) = None"
    by (simp add: demo_dirs_def packaged_def)
  ultimately show "map_of demo_fs (packaged ''1250'' name) = None"
    by (simp add: demo_dirs_lookup)
qed

lemma outside_alpha_paths:
  "outside_alpha (''03.packaged'' # r)" "outside_alpha unrarefied_path"
  by (simp_all add: outside_alpha_def unrarefied_path_def)

lemma demo_depth_step:
  "\<exists>fs'. depth_step ''1250'' (Some demo_map, [], demo_fs)
            = Inr (Some (demo_map_after [''observed_otus'', ''faiths_pd'', ''shannon'']),
                   [(''1250'', [''s1'', ''s2''])], fs')
       \<and> map_of fs' (packaged ''1250'' ''collated_alpha.txt'')
           = Some (File (FloatCsv ''#SampleID'' demo_collated))
       \<and> map_of fs' (packaged ''1250'' ''ag_map_with_alpha.txt'')
           = Some (File (MapCsv ''#SampleID''
                (dropna (demo_map_after [''observed_otus'', ''faiths_pd'', ''shannon'']))))
       \<and> map_of fs' (packaged ''1250'' ''sample_id.txt'')
           = Some (File (Text (join [CHR 0x0A] [''s1'', ''s2''])))
       \<and> map_of fs' unrarefied_path = Some (File (Biom unrarefied_table))
       \<and> map_of fs' [''03.packaged'', ''1250''] = Some Dir
       \<and> (\<forall>q. outside_alpha q \<and> length q \<noteq> 3 \<longrightarrow> map_of fs' q = map_of demo_fs q)"
proof -
  let ?m = "demo_map_after [''observed_otus'', ''faiths_pd'', ''shannon'']"
  from demo_metric_loop [OF demo_inv_initial] obtain fs1 where
    ml: "metric_loop ''1250'' [''observed_otus'', ''faiths_pd'', ''shannon''] (Some demo_map, [], demo_fs)
           = Inr (Some ?m, [demo_alpha_var ''observed_otus'', demo_alpha_var ''faiths_pd'',
                            demo_alpha_var ''shannon''], fs1)"
    and pk: "\<forall>q. outside_alpha q \<longrightarrow> map_of fs1 q = map_of demo_fs q"
    by blast
  have dir1: "map_of fs1 [''03.packaged'', ''1250''] = Some Dir"
    using pk outside_alpha_paths(1) demo_packaged_lookup(1) by simp
  then have d1: "is_dir fs1 [''03.packaged'', ''1250'']" by (simp add: is_dir_def)
  have n1: "map_of fs1 (packaged ''1250'' name) = None" for name
    using pk outside_alpha_paths(1) demo_packaged_lookup(2) [of name] by (simp add: packaged_def)
  have u1: "map_of fs1 unrarefied_path = Some (File (Biom unrarefied_table))"
    using pk outside_alpha_paths(2) by (simp add: demo_dirs_lookup demo_dirs_def unrarefied_path_def)
  let ?fs2 = "put fs1 (packaged ''1250'' ''collated_alpha.txt'') (File (FloatCsv ''#SampleID'' demo_collated))"
  have w1: "write_file fs1 (packaged ''1250'' ''collated_alpha.txt'') (FloatCsv ''#SampleID'' demo_collated)
              = Inr ?fs2"
    by (rule write_file_ok) (use d1 n1 in \<open>simp_all add: packaged_def\<close>)
  have d2: "is_dir ?fs2 [''03.packaged'', ''1250'']"
    using write_file_is_dir [OF w1] d1 by simp
  have n2: "map_of ?fs2 (packaged ''1250'' ''ag_map_with_alpha.txt'') \<noteq> Some Dir"
    using n1 by (simp add: map_of_put)
  let ?fs3 = "put ?fs2 (packaged ''1250'' ''ag_map_with_alpha.txt'') (File (MapCsv ''#SampleID'' (dropna ?m)))"
  have w2: "write_file ?fs2 (packaged ''1250'' ''ag_map_with_alpha.txt'') (MapCsv ''#SampleID'' (dropna ?m))
              = Inr ?fs3"
    by (rule write_file_ok) (use d2 n2 in \<open>simp_all add: packaged_def\<close>)
  have d3: "is_dir ?fs3 [''03.packaged'', ''1250'']"
    using write_file_is_dir [OF w2] d2 by simp
  have n3: "map_of ?fs3 (packaged ''1250'' ''sample_id.txt'') \<noteq> Some Dir"
    using n1 by (simp add: map_of_put)
  let ?fs4 = "put ?fs3 (packaged ''1250'' ''sample_id.txt'') (File (Text (join [CHR 0x0A] (index demo_collated))))"
  have w3: "write_file ?fs3 (packaged ''1250'' ''sample_id.txt'') (Text (join [CHR 0x0A] (index demo_collated)))
              = Inr ?fs4"
    by (rule write_file_ok) (use d3 n3 in \<open>simp_all add: packaged_def\<close>)
  have "depth_step ''1250'' (Some demo_map, [], demo_fs)
          = Inr (Some ?m, [(''1250'', index demo_collated)], ?fs4)"
    unfolding depth_step_def
    by (simp only: prod.case ml sum.case demo_collated_concat w1 option.case w2 w3)
  then have run: "depth_step ''1250'' (Some demo_map, [], demo_fs)
          = Inr (Some ?m, [(''1250'', [''s1'', ''s2''])], ?fs4)"
    by (simp only: demo_collated_index)
  have l: "map_of ?fs4 q =
             (if q = packaged ''1250'' ''sample_id.txt''
                then Some (File (Text (join [CHR 0x0A] (index demo_collated))))
              else if q = packaged ''1250'' ''ag_map_with_alpha.txt''
                then Some (File (MapCsv ''#SampleID'' (dropna ?m)))
              else if q = packaged ''1250'' ''collated_alpha.txt''
                then Some (File (FloatCsv ''#SampleID'' demo_collated))
              else map_of fs1 q)" for q
    by (simp add: map_of_put)
  have a: "map_of ?fs4 (packaged ''1250'' ''collated_alpha.txt'')
           = Some (File (FloatCsv ''#SampleID'' demo_collated))"
    unfolding l by (simp add: packaged_def)
  have b: "map_of ?fs4 (packaged ''1250'' ''ag_map_with_alpha.txt'')
           = Some (File (MapCsv ''#SampleID'' (dropna ?m)))"
    unfolding l by (simp add: packaged_def)
  have c: "map_of ?fs4 (packaged ''1250'' ''sample_id.txt'')
           = Some (File (Text (join [CHR 0x0A] [''s1'', ''s2''])))"
    unfolding l by (simp add: demo_collated_index)
  have d: "map_of ?fs4 unrarefied_path = Some (File (Biom unrarefied_table))"
    unfolding l using u1 by (simp add: packaged_def unrarefied_path_def)
  have e: "map_of ?fs4 [''03.packaged'', ''1250''] = Some Dir"
    unfolding l using dir1 by (simp add: packaged_def)
  have f: "\<forall>q. outside_alpha q \<and> length q \<noteq> 3 \<longrightarrow> map_of ?fs4 q = map_of demo_fs q"
    unfolding l using pk by (auto simp: packaged_def)
  show ?thesis using run a b c d e f by blast
qed

lemma demo_depth_loop:
  "depth_loop [''1250''] (Some demo_map, [], demo_fs) = depth_step ''1250'' (Some demo_map, [], demo_fs)"
  by (simp split: sum.splits)

section \<open>The files of a depth\<close>

lemma dropna_filter: "rows (dropna f) = filter (\<lambda>r. None \<notin> set (snd r)) (rows f)"
proof -
  have "(\<lambda>(l, vs). list_all (\<lambda>v. v \<noteq> None) vs) = (\<lambda>r :: string \<times> 'a option list. None \<notin> set (snd r))"
    by (rule ext) (simp only: case_prod_unfold no_missing)
  then show ?thesis by (simp only: dropna_def frame.simps)
qed

text \<open>
  Claim C2. After the loop over the depths, for every depth of the loop, the file
  \<open>sample_id.txt\<close> of the depth holds the index of the table written to
  \<open>collated_alpha.txt\<close>, joined with newlines: read line by line it gives back that
  index, label for label, provided no label is empty or has a newline in it. The cell
  is this loop over the five depths.
\<close>

theorem sample_id_lines_are_collated_index:
  assumes "depth_loop ds (map_var, sample_ids, fs) = Inr (map_var', sample_ids', fs')"
    and "d \<in> set ds"
  shows "\<exists>collated txt.
           map_of fs' (packaged d ''collated_alpha.txt'') = Some (File (FloatCsv ''#SampleID'' collated))
         \<and> map_of fs' (packaged d ''sample_id.txt'') = Some (File (Text txt))
         \<and> ((\<forall>s\<in>set (index collated). s \<noteq> [] \<and> CHR 0x0A \<notin> set s)
               \<longrightarrow> file_lines txt = index collated)"
proof -
  from depth_loop_files [OF assms] obtain collated where
    c: "map_of fs' (packaged d ''collated_alpha.txt'') = Some (File (FloatCsv ''#SampleID'' collated))"
       "map_of fs' (packaged d ''sample_id.txt'') = Some (File (Text (join [CHR 0x0A] (index collated))))"
    by blast
  have "(\<forall>s\<in>set (index collated). s \<noteq> [] \<and> CHR 0x0A \<notin> set s)
          \<longrightarrow> file_lines (join [CHR 0x0A] (index collated)) = index collated"
    using file_lines_join [of "index collated"] by blast
  then show ?thesis using c by blast
qed

theorem sample_id_lines_are_collated_index_witness:
  "\<exists>fs'. depth_loop [''1250''] (Some demo_map, [], demo_fs)
            = Inr (Some (demo_map_after [''observed_otus'', ''faiths_pd'', ''shannon'']),
                   [(''1250'', [''s1'', ''s2''])], fs')
       \<and> ''1250'' \<in> set [''1250'']
       \<and> map_of fs' (packaged ''1250'' ''collated_alpha.txt'')
            = Some (File (FloatCsv ''#SampleID'' demo_collated))
       \<and> map_of fs' (packaged ''1250'' ''sample_id.txt'')
            = Some (File (Text (join [CHR 0x0A] [''s1'', ''s2''])))
       \<and> index demo_collated = [''s1'', ''s2'']
       \<and> file_lines (join [CHR 0x0A] [''s1'', ''s2'']) = index demo_collated"
proof -
  from demo_depth_step obtain fs' where
    run: "depth_step ''1250'' (Some demo_map, [], demo_fs)
            = Inr (Some (demo_map_after [''observed_otus'', ''faiths_pd'', ''shannon'']),
                   [(''1250'', [''s1'', ''s2''])], fs')"
    and a: "map_of fs' (packaged ''1250'' ''collated_alpha.txt'')
            = Some (File (FloatCsv ''#SampleID'' demo_collated))"
    and b: "map_of fs' (packaged ''1250'' ''sample_id.txt'')
            = Some (File (Text (join [CHR 0x0A] [''s1'', ''s2''])))"
    by blast
  have loop: "depth_loop [''1250''] (Some demo_map, [], demo_fs)
            = Inr (Some (demo_map_after [''observed_otus'', ''faiths_pd'', ''shannon'']),
                   [(''1250'', [''s1'', ''s2''])], fs')"
    unfolding demo_depth_loop by (rule run)
  from sample_id_lines_are_collated_index [OF loop, of "''1250''"] obtain collated t where
    c: "map_of fs' (packaged ''1250'' ''collated_alpha.txt'') = Some (File (FloatCsv ''#SampleID'' collated))"
       "map_of fs' (packaged ''1250'' ''sample_id.txt'') = Some (File (Text t))"
       "(\<forall>s\<in>set (index collated). s \<noteq> [] \<and> CHR 0x0A \<notin> set s) \<longrightarrow> file_lines t = index collated"
    by auto
  have e: "collated = demo_collated" "t = join [CHR 0x0A] [''s1'', ''s2'']"
    using c(1,2) a b by simp_all
  have fl: "file_lines (join [CHR 0x0A] [''s1'', ''s2'']) = index demo_collated"
    using c(3) unfolding e by (simp add: demo_collated_index)
  have mem: "''1250'' \<in> set [''1250'']" by simp
  show ?thesis
    by (rule exI [of _ fs']) (intro conjI loop mem a b demo_collated_index fl)
qed

text \<open>
  Claim C6, as amended. The table written to \<open>ag_map_with_alpha.txt\<close> at a depth is
  the accumulated metadata table, as it is after the metrics of the depth, without the
  rows that have a missing value in any column, the columns of the input metadata
  included: \<open>dropna\<close> is called without a subset of columns.
\<close>

theorem ag_map_rows_have_no_missing_value:
  assumes "depth_step depth (map_var, sample_ids, fs) = Inr (map_var', sample_ids', fs')"
  shows "\<exists>m f. map_var' = Some m
           \<and> map_of fs' (packaged depth ''ag_map_with_alpha.txt'') = Some (File (MapCsv ''#SampleID'' f))
           \<and> columns f = columns m
           \<and> rows f = filter (\<lambda>r. None \<notin> set (snd r)) (rows m)"
proof -
  from depth_step_result [OF assms] obtain m collated fs1 where
    m: "map_var' = Some m"
    and l: "\<And>q. map_of fs' q =
                 (if q = packaged depth ''sample_id.txt''
                    then Some (File (Text (join [CHR 0x0A] (index collated))))
                  else if q = packaged depth ''ag_map_with_alpha.txt''
                    then Some (File (MapCsv ''#SampleID'' (dropna m)))
                  else if q = packaged depth ''collated_alpha.txt''
                    then Some (File (FloatCsv ''#SampleID'' collated))
                  else map_of fs1 q)"
    by blast
  have "map_of fs' (packaged depth ''ag_map_with_alpha.txt'') = Some (File (MapCsv ''#SampleID'' (dropna m)))"
    using l [of "packaged depth ''ag_map_with_alpha.txt''"] by (simp add: packaged_names(1))
  then show ?thesis using m dropna_columns [of m] dropna_filter [of m] by blast
qed

theorem ag_map_rows_have_no_missing_value_witness:
  "\<exists>fs'. depth_step ''1250'' (Some demo_map, [], demo_fs)
            = Inr (Some (demo_map_after [''observed_otus'', ''faiths_pd'', ''shannon'']),
                   [(''1250'', [''s1'', ''s2''])], fs')
       \<and> map_of fs' (packaged ''1250'' ''ag_map_with_alpha.txt'')
            = Some (File (MapCsv ''#SampleID''
                 \<lparr>columns = [''AGE_YEARS'', ''observed_otus_1250'', ''faiths_pd_1250'', ''shannon_1250''],
                  rows = [(''s2'', [Some (S ''34''), Some (F (9 / 2)), Some (F (9 / 2)), Some (F (9 / 2))])]\<rparr>))
       \<and> filter (\<lambda>r. None \<notin> set (snd r))
            (rows (demo_map_after [''observed_otus'', ''faiths_pd'', ''shannon'']))
           = [(''s2'', [Some (S ''34''), Some (F (9 / 2)), Some (F (9 / 2)), Some (F (9 / 2))])]"
proof -
  let ?m = "demo_map_after [''observed_otus'', ''faiths_pd'', ''shannon'']"
  from demo_depth_step obtain fs' where
    run: "depth_step ''1250'' (Some demo_map, [], demo_fs) = Inr (Some ?m, [(''1250'', [''s1'', ''s2''])], fs')"
    by blast
  from ag_map_rows_have_no_missing_value [OF run] obtain f where
    f: "map_of fs' (packaged ''1250'' ''ag_map_with_alpha.txt'') = Some (File (MapCsv ''#SampleID'' f))"
       "columns f = columns ?m" "rows f = filter (\<lambda>r. None \<notin> set (snd r)) (rows ?m)"
    by auto
  have r: "filter (\<lambda>r. None \<notin> set (snd r)) (rows ?m)
             = [(''s2'', [Some (S ''34''), Some (F (9 / 2)), Some (F (9 / 2)), Some (F (9 / 2))])]"
    by (simp add: demo_map_after_def)
  have "f = \<lparr>columns = [''AGE_YEARS'', ''observed_otus_1250'', ''faiths_pd_1250'', ''shannon_1250''],
             rows = [(''s2'', [Some (S ''34''), Some (F (9 / 2)), Some (F (9 / 2)), Some (F (9 / 2))])]\<rparr>"
    using f(2,3) unfolding r by (cases f) (simp add: demo_map_after_def mean_column_def)
  then show ?thesis using run f(1) r by blast
qed

text \<open>
  The claim as stated fails on a row whose alpha diversity is complete and whose
  metadata is not: sample \<open>s1\<close> has a value in each of the three alpha columns and
  none under \<open>AGE_YEARS\<close>, and it is not written.
\<close>

theorem ag_map_counterexample:
  "\<exists>fs' f. depth_step ''1250'' (Some demo_map, [], demo_fs)
            = Inr (Some (demo_map_after [''observed_otus'', ''faiths_pd'', ''shannon'']),
                   [(''1250'', [''s1'', ''s2''])], fs')
       \<and> columns (demo_map_after [''observed_otus'', ''faiths_pd'', ''shannon''])
            = [''AGE_YEARS'', ''observed_otus_1250'', ''faiths_pd_1250'', ''shannon_1250'']
       \<and> map_of (rows (demo_map_after [''observed_otus'', ''faiths_pd'', ''shannon''])) ''s1''
            = Some [None, Some (F 10), Some (F 10), Some (F 10)]
       \<and> map_of fs' (packaged ''1250'' ''ag_map_with_alpha.txt'') = Some (File (MapCsv ''#SampleID'' f))
       \<and> ''s1'' \<notin> set (index f)"
proof -
  let ?m = "demo_map_after [''observed_otus'', ''faiths_pd'', ''shannon'']"
  from demo_depth_step obtain fs' where
    run: "depth_step ''1250'' (Some demo_map, [], demo_fs) = Inr (Some ?m, [(''1250'', [''s1'', ''s2''])], fs')"
    and b: "map_of fs' (packaged ''1250'' ''ag_map_with_alpha.txt'')
              = Some (File (MapCsv ''#SampleID'' (dropna ?m)))"
    by blast
  have "''s1'' \<notin> set (index (dropna ?m))" by (simp add: demo_dropna index_def)
  moreover have "columns ?m = [''AGE_YEARS'', ''observed_otus_1250'', ''faiths_pd_1250'', ''shannon_1250'']"
    by (simp add: demo_map_after_def mean_column_def)
  moreover have "map_of (rows ?m) ''s1'' = Some [None, Some (F 10), Some (F 10), Some (F 10)]"
    by (simp add: demo_map_after_def)
  ultimately show ?thesis using run b by blast
qed

end
